theory Spec2Isabelle
  imports Complex_Main "HOL-Library.Sublist" "HOL-Library.AList"
begin

section \<open>Python values, exceptions and strings\<close>

text \<open>
  The resolver of \<^verbatim>\<open>src/newpkg/lib/deps.py\<close> works on documents decoded from YAML
  (\<^verbatim>\<open>yaml.safe_load\<close>) and from JSON. A decoded document is a value of the type
  \<open>json\<close>:
  \<^item> \<open>JNull\<close>, \<open>JBool\<close>, \<open>JNum\<close> (an integer of any size), \<open>JStr\<close>;
  \<^item> \<open>JFloat q\<close>, a finite floating-point number, by its exact value, and
    \<open>JNonfinite\<close>, the values \<^verbatim>\<open>inf\<close>, \<^verbatim>\<open>-inf\<close> and \<^verbatim>\<open>nan\<close>;
  \<^item> \<open>JBytes\<close> (YAML \<^verbatim>\<open>!!binary\<close>) and \<open>JDate\<close> (a YAML date or timestamp, by its
    text), which the JSON encoder refuses;
  \<^item> \<open>JArr\<close>, a list, and \<open>JSet\<close> (YAML \<^verbatim>\<open>!!set\<close>), by its members in the order of
    iteration;
  \<^item> \<open>JObj\<close>, a dictionary: its items in insertion order. A key is any hashable
    value; a dictionary decoded from JSON has string keys only.
\<close>

datatype nonfinite = PosInf | NegInf | NaN

datatype json =
    JNull
  | JBool bool
  | JNum int
  | JFloat rat
  | JNonfinite nonfinite
  | JStr string
  | JBytes string
  | JDate string
  | JArr "json list"
  | JSet "json list"
  | JObj "(json \<times> json) list"

datatype py_error =
    IndexError
  | TypeError
  | AttributeError
  | ValueError
  | NetworkXError
  | NetworkXUnfeasible
  | NetworkXNoPath
  | NodeNotFound

text \<open>Sequencing of computations that may raise: the first exception wins.\<close>

fun bindE :: "py_error + 'a \<Rightarrow> ('a \<Rightarrow> py_error + 'b) \<Rightarrow> py_error + 'b" where
  "bindE (Inl e) f = Inl e"
| "bindE (Inr x) f = f x"

text \<open>Truth value testing (\<^verbatim>\<open>if x\<close>, \<^verbatim>\<open>x or y\<close>, \<^verbatim>\<open>not x\<close>).\<close>

fun truthy :: "json \<Rightarrow> bool" where
  "truthy JNull = False"
| "truthy (JBool b) = b"
| "truthy (JNum n) = (n \<noteq> 0)"
| "truthy (JFloat q) = (q \<noteq> 0)"
| "truthy (JNonfinite x) = True"
| "truthy (JStr s) = (s \<noteq> [])"
| "truthy (JBytes s) = (s \<noteq> [])"
| "truthy (JDate s) = True"
| "truthy (JArr xs) = (xs \<noteq> [])"
| "truthy (JSet xs) = (xs \<noteq> [])"
| "truthy (JObj kvs) = (kvs \<noteq> [])"

definition py_or :: "json \<Rightarrow> json \<Rightarrow> json" where
  "py_or a b = (if truthy a then a else b)"

text \<open>
  \<^verbatim>\<open>d.get(k)\<close> and \<^verbatim>\<open>d.get(k, default)\<close> for a string \<open>k\<close>: on a dictionary whose keys
  are strings by construction (keyword arguments, the attributes of a node, the
  configuration as far as it is read), and on a decoded dictionary, where only a string
  key is equal to \<open>k\<close>.
\<close>

definition dict_get :: "(string \<times> json) list \<Rightarrow> string \<Rightarrow> json \<Rightarrow> json" where
  "dict_get kvs k dflt = (case map_of kvs k of None \<Rightarrow> dflt | Some v \<Rightarrow> v)"

definition obj_get :: "(json \<times> json) list \<Rightarrow> string \<Rightarrow> json \<Rightarrow> json" where
  "obj_get kvs k dflt = (case map_of kvs (JStr k) of None \<Rightarrow> dflt | Some v \<Rightarrow> v)"

text \<open>Lists, sets and dictionaries cannot be members of a set or keys of a dictionary.\<close>

fun hashable :: "json \<Rightarrow> bool" where
  "hashable (JArr xs) = False"
| "hashable (JSet xs) = False"
| "hashable (JObj kvs) = False"
| "hashable v = True"

text \<open>
  Python finds a key in a dictionary, and a member in a set, by \<^verbatim>\<open>==\<close>, which
  identifies the numbers \<^verbatim>\<open>1\<close>, \<^verbatim>\<open>1.0\<close> and \<^verbatim>\<open>True\<close> (and \<^verbatim>\<open>0\<close>, \<^verbatim>\<open>0.0\<close>,
  \<^verbatim>\<open>False\<close>). \<open>py_key v\<close> is the same for two hashable values exactly when Python takes
  them for the same key.
\<close>

fun py_key :: "json \<Rightarrow> json" where
  "py_key (JBool b) = JNum (if b then 1 else 0)"
| "py_key (JFloat q) = (if of_int \<lfloor>q\<rfloor> = q then JNum \<lfloor>q\<rfloor> else JFloat q)"
| "py_key v = v"

text \<open>
  \<^verbatim>\<open>for it in lst\<close>: a list and a set yield their items, a string its characters, a
  byte string its bytes as numbers, a dictionary its keys; anything else is not
  iterable.
\<close>

fun py_iter :: "json \<Rightarrow> py_error + json list" where
  "py_iter (JArr xs) = Inr xs"
| "py_iter (JSet xs) = Inr xs"
| "py_iter (JStr s) = Inr (map (\<lambda>c. JStr [c]) s)"
| "py_iter (JBytes s) = Inr (map (\<lambda>c. JNum (of_char c)) s)"
| "py_iter (JObj kvs) = Inr (map fst kvs)"
| "py_iter v = Inl TypeError"

text \<open>\<^verbatim>\<open>xs[0]\<close> raises \<^verbatim>\<open>IndexError\<close> on the empty list.\<close>

fun index0 :: "'a list \<Rightarrow> py_error + 'a" where
  "index0 [] = Inl IndexError"
| "index0 (x # xs) = Inr x"

text \<open>
  \<^verbatim>\<open>str.isspace\<close> for one character. Characters are the code points below 256: the
  ASCII white space, the separators \<open>0x1c\<close> to \<open>0x1f\<close>, \<open>0x85\<close> and \<open>0xa0\<close>.
\<close>

definition is_space :: "char \<Rightarrow> bool" where
  "is_space c = (let n = (of_char c :: nat) in
     (9 \<le> n \<and> n \<le> 13) \<or> (28 \<le> n \<and> n \<le> 32) \<or> n = 133 \<or> n = 160)"

text \<open>
  \<^verbatim>\<open>s.split()\<close>: the maximal runs of characters that are not white space, in order;
  leading and trailing white space gives no empty piece.
\<close>

function split_ws :: "string \<Rightarrow> string list" where
  "split_ws s =
     (case dropWhile is_space s of
        [] \<Rightarrow> []
      | c # cs \<Rightarrow> (c # takeWhile (\<lambda>x. \<not> is_space x) cs)
                 # split_ws (dropWhile (\<lambda>x. \<not> is_space x) cs))"
  by pat_completeness auto
termination
proof (relation "measure length")
  show "wf (measure length)" by simp
next
  fix s :: string and c cs
  assume a: "dropWhile is_space s = c # cs"
  have "length (dropWhile (\<lambda>x. \<not> is_space x) cs) \<le> length cs"
    by (rule length_dropWhile_le)
  moreover have "length (c # cs) \<le> length s"
    using length_dropWhile_le [of is_space s] a by simp
  ultimately show "(dropWhile (\<lambda>x. \<not> is_space x) cs, s) \<in> measure length"
    by simp
qed

declare split_ws.simps [simp del]

text \<open>
  \<^verbatim>\<open>s.split(sep)\<close> for a separator that is not empty (Python raises
  \<^verbatim>\<open>ValueError\<close> on the empty one): the pieces between the occurrences of \<open>sep\<close>,
  scanned from the left. The second argument is the piece being read, reversed.
\<close>

function split_sep_from :: "string \<Rightarrow> string \<Rightarrow> string \<Rightarrow> string list" where
  "split_sep_from sep cur [] = [rev cur]"
| "split_sep_from sep cur (c # cs) =
     (if sep \<noteq> [] \<and> prefix sep (c # cs)
      then rev cur # split_sep_from sep [] (drop (length sep) (c # cs))
      else split_sep_from sep (c # cur) cs)"
  by pat_completeness auto
termination
  by (relation "measure (\<lambda>(sep, cur, s). length s)") (auto simp: Suc_le_eq)

definition split_sep :: "string \<Rightarrow> string \<Rightarrow> py_error + string list" where
  "split_sep sep s = (if sep = [] then Inl ValueError else Inr (split_sep_from sep [] s))"

text \<open>\<^verbatim>\<open>s.split(sep)[0]\<close>.\<close>

definition split0 :: "string \<Rightarrow> string \<Rightarrow> py_error + string" where
  "split0 sep s = bindE (split_sep sep s) index0"

section \<open>Normalisation of dependency entries\<close>

text \<open>
  The string branch of \<^verbatim>\<open>norm_list\<close>:
  \<^verbatim>\<open>it.split()[0].split(">=")[0].split("<=")[0].split("==")[0].split(">")[0].split("<")[0]\<close>.
\<close>

definition strip_constraint :: "string \<Rightarrow> py_error + string" where
  "strip_constraint it =
     bindE (index0 (split_ws it)) (\<lambda>a.
     bindE (split0 ''>='' a) (\<lambda>b.
     bindE (split0 ''<='' b) (\<lambda>c.
     bindE (split0 ''=='' c) (\<lambda>d.
     bindE (split0 ''>'' d) (\<lambda>e.
     split0 ''<'' e)))))"

text \<open>
  The loop of \<^verbatim>\<open>norm_list\<close> over the items: a string is stripped, a dictionary with
  the key \<open>name\<close> gives the value stored there, every other item is skipped.
\<close>

fun norm_items :: "json list \<Rightarrow> py_error + json list" where
  "norm_items [] = Inr []"
| "norm_items (JStr s # rest) =
     bindE (strip_constraint s) (\<lambda>n.
     bindE (norm_items rest) (\<lambda>out. Inr (JStr n # out)))"
| "norm_items (JObj kvs # rest) =
     (case map_of kvs (JStr ''name'') of
        Some v \<Rightarrow> bindE (norm_items rest) (\<lambda>out. Inr (v # out))
      | None \<Rightarrow> norm_items rest)"
| "norm_items (it # rest) = norm_items rest"

definition norm_list :: "json \<Rightarrow> py_error + json list" where
  "norm_list lst = (if \<not> truthy lst then Inr [] else bindE (py_iter lst) norm_items)"

text \<open>
  The rule as the specification words it: the substring before the first white space,
  cut where the first comparison operator starts.
\<close>

definition comparison_ops :: "string list" where
  "comparison_ops = [''>='', ''<='', ''=='', ''>'', ''<'']"

fun before_any :: "string list \<Rightarrow> string \<Rightarrow> string" where
  "before_any ps [] = []"
| "before_any ps (c # cs) =
     (if \<exists>p \<in> set ps. prefix p (c # cs) then [] else c # before_any ps cs)"

definition spec_normalize :: "string \<Rightarrow> string" where
  "spec_normalize s = before_any comparison_ops (takeWhile (\<lambda>x. \<not> is_space x) s)"

definition first_word :: "string \<Rightarrow> string" where
  "first_word s = takeWhile (\<lambda>x. \<not> is_space x) (dropWhile is_space s)"

section \<open>The dependency graph\<close>

text \<open>
  The resolver keeps a \<^verbatim>\<open>networkx.DiGraph\<close>. networkx is a library the repository
  imports; its graph class is modelled by what it stores: the nodes in insertion order,
  the attribute dictionary of every node and the successors of every node in insertion
  order. An edge \<open>a \<rightarrow> b\<close> says that \<open>a\<close> depends on \<open>b\<close>.
\<close>

record graph =
  nodes :: "json list"
  attrs :: "json \<Rightarrow> (string \<times> json) list"
  succ :: "json \<Rightarrow> json list"

definition empty_graph :: graph where
  "empty_graph = \<lparr>nodes = [], attrs = (\<lambda>n. []), succ = (\<lambda>n. [])\<rparr>"

text \<open>\<^verbatim>\<open>d.update(kw)\<close>: an existing key keeps its place, a new key goes last.\<close>

definition dict_update :: "(string \<times> json) list \<Rightarrow> (string \<times> json) list \<Rightarrow> (string \<times> json) list" where
  "dict_update d kw = fold (\<lambda>kv. AList.update (fst kv) (snd kv)) kw d"

text \<open>
  The block that \<^verbatim>\<open>add_node\<close> and \<^verbatim>\<open>add_edge\<close> share: a node that is not yet in the
  graph is entered with no attributes and no successors. A list, set or dictionary
  cannot be hashed, and \<^verbatim>\<open>None\<close> cannot be a node. Two nodes are the same when they are
  the same value.
\<close>

definition new_node :: "graph \<Rightarrow> json \<Rightarrow> py_error + graph" where
  "new_node g n =
     (if \<not> hashable n then Inl TypeError
      else if n \<in> set (nodes g) then Inr g
      else if n = JNull then Inl ValueError
      else Inr (g\<lparr>nodes := nodes g @ [n], attrs := (attrs g)(n := []),
                   succ := (succ g)(n := [])\<rparr>))"

definition add_node :: "graph \<Rightarrow> json \<Rightarrow> (string \<times> json) list \<Rightarrow> py_error + graph" where
  "add_node g n kw =
     bindE (new_node g n) (\<lambda>g1.
     Inr (g1\<lparr>attrs := (attrs g1)(n := dict_update (attrs g1 n) kw)\<rparr>))"

definition add_edge :: "graph \<Rightarrow> json \<Rightarrow> json \<Rightarrow> py_error + graph" where
  "add_edge g u v =
     bindE (new_node g u) (\<lambda>g1.
     bindE (new_node g1 v) (\<lambda>g2.
     Inr (g2\<lparr>succ := (succ g2)(u := (if v \<in> set (succ g2 u) then succ g2 u
                                       else succ g2 u @ [v]))\<rparr>)))"

text \<open>\<^verbatim>\<open>G.successors(n)\<close> raises \<^verbatim>\<open>NetworkXError\<close> for a node that is not in the graph.\<close>

definition successors :: "graph \<Rightarrow> json \<Rightarrow> py_error + json list" where
  "successors g n =
     (if \<not> hashable n then Inl TypeError
      else if n \<in> set (nodes g) then Inr (succ g n)
      else Inl NetworkXError)"

text \<open>\<^verbatim>\<open>G.nodes[n][k] = v\<close>.\<close>

definition set_attr :: "graph \<Rightarrow> json \<Rightarrow> string \<Rightarrow> json \<Rightarrow> graph" where
  "set_attr g n k v = g\<lparr>attrs := (attrs g)(n := AList.update k v (attrs g n))\<rparr>"

text \<open>The edges of the graph, as a relation and as a list.\<close>

definition edges :: "graph \<Rightarrow> (json \<times> json) set" where
  "edges g = {(a, b). a \<in> set (nodes g) \<and> b \<in> set (succ g a)}"

definition edge_list :: "graph \<Rightarrow> (json \<times> json) list" where
  "edge_list g = concat (map (\<lambda>a. map (\<lambda>b. (a, b)) (succ g a)) (nodes g))"

text \<open>
  What the graph class guarantees of every graph it builds: no node is stored twice,
  every node is hashable and is not \<^verbatim>\<open>None\<close>, and the successors of a node are nodes,
  each stored once.
\<close>

definition wf_graph :: "graph \<Rightarrow> bool" where
  "wf_graph g \<longleftrightarrow>
     distinct (nodes g) \<and>
     (\<forall>n \<in> set (nodes g). hashable n \<and> n \<noteq> JNull \<and> distinct (succ g n)
        \<and> set (succ g n) \<subseteq> set (nodes g))"

section \<open>The collaborators of the resolver\<close>

text \<open>
  What the resolver reads from outside is a parameter of the model:
  \<^item> \<open>parse_metafile\<close>: the Descriptor Source, \<^verbatim>\<open>parse_metafile(path_or_name)\<close>, which
    gives a decoded dictionary or \<^verbatim>\<open>None\<close>;
  \<^item> \<open>set_iter\<close>: the order in which Python iterates over \<^verbatim>\<open>set(xs)\<close>, which the
    language leaves open; it maps the list \<open>xs\<close> to the sequence of the iteration;
  \<^item> \<open>ask\<close>: the decision provider; \<open>ask k parent candidate\<close> says whether the answer
    to the \<open>k\<close>-th prompt is \<^verbatim>\<open>y\<close> or \<^verbatim>\<open>yes\<close>;
  \<^item> \<open>config\<close>: the configuration dictionary;
  \<^item> \<open>db_revdeps\<close>: the lines that \<^verbatim>\<open>db.sh revdeps\<close> prints for a package.
\<close>

record env =
  parse_metafile :: "json \<Rightarrow> (json \<times> json) list option"
  set_iter :: "json list \<Rightarrow> json list"
  ask :: "nat \<Rightarrow> json \<Rightarrow> json \<Rightarrow> bool"
  config :: "(string \<times> json) list"
  db_revdeps :: "json \<Rightarrow> string list"

text \<open>Every iteration over a set visits each member once.\<close>

definition set_iter_ok :: "(json list \<Rightarrow> json list) \<Rightarrow> bool" where
  "set_iter_ok f \<longleftrightarrow> (\<forall>xs. set (f xs) = set xs \<and> distinct (f xs))"

section \<open>Adding a package\<close>

text \<open>The fields that \<^verbatim>\<open>add_package_from_metafile\<close> reads from the descriptor.\<close>

definition meta_name :: "(json \<times> json) list \<Rightarrow> json" where
  "meta_name meta =
     py_or (py_or (obj_get meta ''name'' JNull) (obj_get meta ''package'' JNull))
       (obj_get meta ''pkgname'' JNull)"

definition meta_section :: "(json \<times> json) list \<Rightarrow> string \<Rightarrow> json" where
  "meta_section meta k = py_or (obj_get meta k (JObj [])) (JObj [])"

definition meta_build_deps :: "(json \<times> json) list \<Rightarrow> json" where
  "meta_build_deps meta =
     (case meta_section meta ''build'' of
        JObj b \<Rightarrow> py_or (py_or (obj_get b ''depends'' JNull) (obj_get b ''depends_on'' JNull))
                   (JArr [])
      | _ \<Rightarrow> JArr [])"

definition meta_optional :: "(json \<times> json) list \<Rightarrow> json" where
  "meta_optional meta =
     (case meta_section meta ''build'' of
        JObj b \<Rightarrow> py_or (obj_get b ''optional'' JNull) (JArr [])
      | _ \<Rightarrow> JArr [])"

definition meta_run_deps :: "(json \<times> json) list \<Rightarrow> json" where
  "meta_run_deps meta =
     (case meta_section meta ''runtime'' of
        JObj r \<Rightarrow> py_or (obj_get r ''depends'' JNull) (JArr [])
      | _ \<Rightarrow> JArr [])"

text \<open>
  The loop over \<^verbatim>\<open>set(build_deps + run_deps)\<close>. An exception leaves the graph as the
  loop has changed it so far, so the graph is returned beside the outcome.
\<close>

fun add_deps :: "json \<Rightarrow> json list \<Rightarrow> graph \<Rightarrow> (py_error + unit) \<times> graph" where
  "add_deps name [] g = (Inr (), g)"
| "add_deps name (d # ds) g =
     (if d = name then add_deps name ds g
      else case add_node g d [] of
             Inl e \<Rightarrow> (Inl e, g)
           | Inr g1 \<Rightarrow> (case add_edge g1 name d of
                          Inl e \<Rightarrow> (Inl e, g1)
                        | Inr g2 \<Rightarrow> add_deps name ds g2))"

text \<open>
  \<^verbatim>\<open>add_package_from_metafile\<close> after the descriptor has been parsed. The outcome is
  the name that was added, \<^verbatim>\<open>None\<close>, or the exception raised.
\<close>

definition add_meta :: "env \<Rightarrow> (json \<times> json) list \<Rightarrow> graph \<Rightarrow> (py_error + json option) \<times> graph" where
  "add_meta E meta g =
     (let name = meta_name meta in
      if \<not> truthy name then (Inr None, g)
      else
        let provides = py_or (obj_get meta ''provides'' JNull) (JArr []) in
        case norm_list (meta_build_deps meta) of
          Inl e \<Rightarrow> (Inl e, g)
        | Inr build_deps \<Rightarrow>
        (case norm_list (meta_run_deps meta) of
          Inl e \<Rightarrow> (Inl e, g)
        | Inr run_deps \<Rightarrow>
        (case norm_list (meta_optional meta) of
          Inl e \<Rightarrow> (Inl e, g)
        | Inr optional \<Rightarrow>
        (case add_node g name
                [(''version'', obj_get meta ''version'' JNull),
                 (''origin'', obj_get meta ''origin'' (JStr [])),
                 (''provides'', provides),
                 (''optional'', JArr optional)] of
          Inl e \<Rightarrow> (Inl e, g)
        | Inr g1 \<Rightarrow>
            if \<exists>d \<in> set (build_deps @ run_deps). \<not> hashable d then (Inl TypeError, g1)
            else
              (case add_deps name (set_iter E (build_deps @ run_deps)) g1 of
                 (Inl e, g2) \<Rightarrow> (Inl e, g2)
               | (Inr u, g2) \<Rightarrow>
                   (Inr (Some name),
                    if optional \<noteq> [] then set_attr g2 name ''optional'' (JArr optional)
                    else g2))))))"

definition add_package_from_metafile :: "env \<Rightarrow> json \<Rightarrow> graph \<Rightarrow> (py_error + json option) \<times> graph" where
  "add_package_from_metafile E path_or_name g =
     (case parse_metafile E path_or_name of
        None \<Rightarrow> (Inr None, g)
      | Some meta \<Rightarrow> if meta = [] then (Inr None, g) else add_meta E meta g)"

section \<open>Orphan detection\<close>

text \<open>
  What \<^verbatim>\<open>db.sh list --json\<close> gave: the command failed or printed nothing, its output
  could not be obtained or decoded, or the decoded output.
\<close>

datatype db_reply = DbFailed | DbUndecodable | DbJson json

text \<open>
  \<^verbatim>\<open>[it.get("name") for it in installed if isinstance(it, dict) and it.get("name")]\<close>;
  an exception in it is caught and leaves the list empty.
\<close>

definition installed_names :: "json \<Rightarrow> json list" where
  "installed_names installed =
     (case py_iter installed of
        Inl e \<Rightarrow> []
      | Inr items \<Rightarrow>
          concat (map (\<lambda>it. case it of
                              JObj kvs \<Rightarrow> (if truthy (obj_get kvs ''name'' JNull)
                                          then [obj_get kvs ''name'' JNull] else [])
                            | _ \<Rightarrow> []) items))"

text \<open>
  The reverse-dependency map: every node starts with the empty set, and every edge
  \<open>src \<rightarrow> dst\<close> adds \<open>src\<close> to the set of \<open>dst\<close>. The map is a Python dictionary: it
  holds one entry for all the keys that Python takes for equal, so the model keeps the
  entry of a key \<open>k\<close> under \<open>py_key k\<close>, and \<^verbatim>\<open>revdeps_map.get(name, set())\<close> reads the
  entry under \<open>py_key name\<close>.
\<close>

definition add_revdep :: "json \<times> json \<Rightarrow> (json \<rightharpoonup> json set) \<Rightarrow> (json \<rightharpoonup> json set)" where
  "add_revdep e m =
     m(py_key (snd e) \<mapsto>
         insert (fst e) (case m (py_key (snd e)) of None \<Rightarrow> {} | Some s \<Rightarrow> s))"

definition revdeps_map :: "graph \<Rightarrow> (json \<rightharpoonup> json set)" where
  "revdeps_map g =
     fold add_revdep (edge_list g)
       (fold (\<lambda>n m. m(py_key n \<mapsto> {})) (nodes g) Map.empty)"

fun orphans_loop :: "(json \<rightharpoonup> json set) \<Rightarrow> json list \<Rightarrow> py_error + json list" where
  "orphans_loop m [] = Inr []"
| "orphans_loop m (name # rest) =
     (if \<not> hashable name then Inl TypeError
      else let deps_of_me = (case m (py_key name) of None \<Rightarrow> {} | Some s \<Rightarrow> s) in
           bindE (orphans_loop m rest) (\<lambda>out.
           Inr (if deps_of_me = {} then name # out else out)))"

definition detect_orphans :: "graph \<Rightarrow> db_reply \<Rightarrow> py_error + json list" where
  "detect_orphans g reply =
     (case reply of
        DbFailed \<Rightarrow> Inr []
      | DbUndecodable \<Rightarrow> orphans_loop (revdeps_map g) []
      | DbJson installed \<Rightarrow> orphans_loop (revdeps_map g) (installed_names installed))"

section \<open>Paths in the graph\<close>

text \<open>
  \<^verbatim>\<open>nx.shortest_path_length\<close> and \<^verbatim>\<open>nx.has_path\<close> are library functions; the length
  of a shortest path is computed here by a breadth-first search, level by level.
  \<open>bfs_levels g target frontier seen d\<close>: the nodes of \<open>frontier\<close> are at distance \<open>d\<close>
  from the source, and \<open>seen\<close> holds every node at distance at most \<open>d\<close>.
\<close>

function bfs_levels :: "graph \<Rightarrow> json \<Rightarrow> json list \<Rightarrow> json list \<Rightarrow> nat \<Rightarrow> nat option" where
  "bfs_levels g target frontier seen d =
     (if target \<in> set frontier then Some d
      else
        let nxt = remdups (filter (\<lambda>v. v \<in> set (nodes g) \<and> v \<notin> set seen)
                              (concat (map (succ g) frontier)))
        in if nxt = [] then None else bfs_levels g target nxt (seen @ nxt) (d + 1))"
  by pat_completeness auto
termination
proof (relation "measure (\<lambda>(g, target, frontier, seen, d). card (set (nodes g) - set seen))")
  show "wf (measure (\<lambda>(g, target, frontier, seen, d). card (set (nodes g) - set seen)))"
    by simp
next
  fix g :: graph and target :: json and frontier seen :: "json list" and d :: nat
    and nxt :: "json list"
  assume nx: "nxt = remdups (filter (\<lambda>v. v \<in> set (nodes g) \<and> v \<notin> set seen)
                              (concat (map (succ g) frontier)))"
    and ne: "nxt \<noteq> []"
  from ne obtain v where v: "v \<in> set nxt" by (cases "nxt") auto
  with nx have vin: "v \<in> set (nodes g) - set seen" by auto
  have "set (nodes g) - set (seen @ nxt) \<subset> set (nodes g) - set seen"
    using v vin by auto
  then have "card (set (nodes g) - set (seen @ nxt)) < card (set (nodes g) - set seen)"
    by (intro psubset_card_mono) auto
  then show "((g, target, nxt, seen @ nxt, d + 1), (g, target, frontier, seen, d))
      \<in> measure (\<lambda>(g, target, frontier, seen, d). card (set (nodes g) - set seen))"
    by simp
qed

declare bfs_levels.simps [simp del]

definition shortest_path_length :: "graph \<Rightarrow> json \<Rightarrow> json \<Rightarrow> py_error + nat" where
  "shortest_path_length g source target =
     (if source \<notin> set (nodes g) \<or> target \<notin> set (nodes g) then Inl NodeNotFound
      else case bfs_levels g target [source] [source] 0 of
             None \<Rightarrow> Inl NetworkXNoPath
           | Some d \<Rightarrow> Inr d)"

text \<open>\<^verbatim>\<open>nx.has_path\<close> catches \<^verbatim>\<open>NetworkXNoPath\<close> only.\<close>

definition has_path :: "graph \<Rightarrow> json \<Rightarrow> json \<Rightarrow> py_error + bool" where
  "has_path g source target =
     (case shortest_path_length g source target of
        Inr d \<Rightarrow> Inr True
      | Inl NetworkXNoPath \<Rightarrow> Inr False
      | Inl e \<Rightarrow> Inl e)"

section \<open>Rebuild impact\<close>

text \<open>
  \<^verbatim>\<open>r.split("-", 1)[0]\<close>: the piece before the first hyphen (the limit of one split
  does not change the first piece).
\<close>

definition strip_version :: "string \<Rightarrow> py_error + json" where
  "strip_version r = bindE (split0 ''-'' r) (\<lambda>n. Inr (JStr n))"

fun map_raising :: "('a \<Rightarrow> py_error + 'b) \<Rightarrow> 'a list \<Rightarrow> py_error + 'b list" where
  "map_raising f [] = Inr []"
| "map_raising f (x # xs) = bindE (f x) (\<lambda>y. bindE (map_raising f xs) (\<lambda>ys. Inr (y # ys)))"

text \<open>
  \<^verbatim>\<open>for n in self.graph.nodes: if nx.has_path(self.graph, n, pkg): dependents.add(n)\<close>
\<close>

fun graph_dependents :: "graph \<Rightarrow> json \<Rightarrow> json list \<Rightarrow> py_error + json list" where
  "graph_dependents g pkg [] = Inr []"
| "graph_dependents g pkg (n # ns) =
     bindE (has_path g n pkg) (\<lambda>b.
     bindE (graph_dependents g pkg ns) (\<lambda>out. Inr (if b then n # out else out)))"

text \<open>
  The distance of a dependent; every exception of \<^verbatim>\<open>shortest_path_length\<close> gives 0.
\<close>

definition distance_or_0 :: "graph \<Rightarrow> json \<Rightarrow> json \<Rightarrow> nat" where
  "distance_or_0 g pkg d = (case shortest_path_length g d pkg of Inl e \<Rightarrow> 0 | Inr n \<Rightarrow> n)"

text \<open>
  \<^verbatim>\<open>sorted(xs, key=k, reverse=True)\<close>: descending by key, elements with equal keys in
  the order they have in \<open>xs\<close>.
\<close>

definition sorted_reverse :: "('a \<Rightarrow> nat) \<Rightarrow> 'a list \<Rightarrow> 'a list" where
  "sorted_reverse k xs = sort_key (\<lambda>x. - int (k x)) xs"

definition mark_for_rebuild :: "env \<Rightarrow> graph \<Rightarrow> json \<Rightarrow> py_error + json list" where
  "mark_for_rebuild E g pkg =
     bindE (map_raising strip_version (db_revdeps E pkg)) (\<lambda>parsed.
     if \<not> hashable pkg then Inl TypeError
     else
       bindE (if pkg \<in> set (nodes g) then graph_dependents g pkg (nodes g) else Inr [])
         (\<lambda>from_graph.
       let dependents = set_iter E (from_graph @ parsed) in
       Inr (sorted_reverse (distance_or_0 g pkg) dependents)))"

section \<open>The graph cache\<close>

text \<open>
  The cache file holds the JSON text of a dictionary from node names to
  \<^verbatim>\<open>{"attrs": ..., "deps": ...}\<close>. Encoding and decoding the text is the work of the
  \<^verbatim>\<open>json\<close> module; the model keeps the decoded value. A file can also be missing,
  unreadable, or hold text that does not decode.
\<close>

datatype cache_file = NoFile | Unreadable | Undecodable | Content json

datatype log_level = Info | Warning | Error

record load_state =
  ls_graph :: graph
  ls_loaded_from_cache :: bool
  ls_log :: "log_level list"

text \<open>
  \<^verbatim>\<open>self.graph.add_node(node, **meta.get("attrs", {}))\<close>: \<open>meta\<close> must be a
  dictionary, what follows \<^verbatim>\<open>**\<close> must be a dictionary with string keys, and none of its
  keys may be the name of a parameter of \<^verbatim>\<open>add_node\<close>.
\<close>

fun str_keys :: "(json \<times> json) list \<Rightarrow> (string \<times> json) list option" where
  "str_keys [] = Some []"
| "str_keys ((JStr k, v) # rest) = map_option (\<lambda>kw. (k, v) # kw) (str_keys rest)"
| "str_keys (kv # rest) = None"

definition load_node :: "graph \<Rightarrow> json \<Rightarrow> json \<Rightarrow> py_error + graph" where
  "load_node g node meta =
     (case meta of
        JObj m \<Rightarrow>
          (case obj_get m ''attrs'' (JObj []) of
             JObj items \<Rightarrow>
               (case str_keys items of
                  None \<Rightarrow> Inl TypeError
                | Some kw \<Rightarrow>
                    if ''self'' \<in> fst ` set kw \<or> ''node_for_adding'' \<in> fst ` set kw
                    then Inl TypeError
                    else add_node g node kw)
           | _ \<Rightarrow> Inl TypeError)
      | _ \<Rightarrow> Inl AttributeError)"

fun load_nodes :: "(json \<times> json) list \<Rightarrow> graph \<Rightarrow> (py_error + unit) \<times> graph" where
  "load_nodes [] g = (Inr (), g)"
| "load_nodes ((node, meta) # rest) g =
     (case load_node g node meta of
        Inl e \<Rightarrow> (Inl e, g)
      | Inr g1 \<Rightarrow> load_nodes rest g1)"

text \<open>\<^verbatim>\<open>for dep in deps: self.graph.add_edge(node, dep)\<close>\<close>

fun load_deps :: "json \<Rightarrow> json list \<Rightarrow> graph \<Rightarrow> (py_error + unit) \<times> graph" where
  "load_deps node [] g = (Inr (), g)"
| "load_deps node (dep # deps) g =
     (case add_edge g node dep of
        Inl e \<Rightarrow> (Inl e, g)
      | Inr g1 \<Rightarrow> load_deps node deps g1)"

fun load_edges :: "(json \<times> json) list \<Rightarrow> graph \<Rightarrow> (py_error + unit) \<times> graph" where
  "load_edges [] g = (Inr (), g)"
| "load_edges ((node, meta) # rest) g =
     (case meta of
        JObj m \<Rightarrow>
          (case py_iter (obj_get m ''deps'' (JArr [])) of
             Inl e \<Rightarrow> (Inl e, g)
           | Inr deps \<Rightarrow>
               (case load_deps node deps g of
                  (Inl e, g1) \<Rightarrow> (Inl e, g1)
                | (Inr u, g1) \<Rightarrow> load_edges rest g1))
      | _ \<Rightarrow> (Inl AttributeError, g))"

text \<open>
  \<^verbatim>\<open>_try_load_cache\<close>. Every exception is caught: the handler logs a warning and sets
  \<^verbatim>\<open>loaded_from_cache\<close> to false. The graph stays as the statements before the
  exception left it.
\<close>

definition try_load_cache :: "cache_file \<Rightarrow> load_state \<Rightarrow> load_state" where
  "try_load_cache file st =
     (case file of
        NoFile \<Rightarrow> st
      | Unreadable \<Rightarrow> st\<lparr>ls_loaded_from_cache := False, ls_log := ls_log st @ [Warning]\<rparr>
      | Undecodable \<Rightarrow> st\<lparr>ls_loaded_from_cache := False, ls_log := ls_log st @ [Warning]\<rparr>
      | Content data \<Rightarrow>
          (case data of
             JObj items \<Rightarrow>
               (case load_nodes items empty_graph of
                  (Inl e, g1) \<Rightarrow>
                    \<lparr>ls_graph = g1, ls_loaded_from_cache = False, ls_log = ls_log st @ [Warning]\<rparr>
                | (Inr u, g1) \<Rightarrow>
                    (case load_edges items g1 of
                       (Inl e, g2) \<Rightarrow>
                         \<lparr>ls_graph = g2, ls_loaded_from_cache = False,
                          ls_log = ls_log st @ [Warning]\<rparr>
                     | (Inr u, g2) \<Rightarrow>
                         \<lparr>ls_graph = g2, ls_loaded_from_cache = True,
                          ls_log = ls_log st @ [Info]\<rparr>))
           | _ \<Rightarrow> \<lparr>ls_graph = empty_graph, ls_loaded_from_cache = False,
                   ls_log = ls_log st @ [Warning]\<rparr>))"

text \<open>The state of a new resolver, before the cache is read.\<close>

definition init_state :: load_state where
  "init_state = \<lparr>ls_graph = empty_graph, ls_loaded_from_cache = False, ls_log = []\<rparr>"

section \<open>Writing the cache\<close>

text \<open>The decimal text of an integer.\<close>

fun digits_of :: "nat \<Rightarrow> nat \<Rightarrow> string" where
  "digits_of 0 n = []"
| "digits_of (Suc fuel) n =
     (if n < 10 then [char_of (48 + n)]
      else digits_of fuel (n div 10) @ [char_of (48 + n mod 10)])"

definition str_of_int :: "int \<Rightarrow> string" where
  "str_of_int i =
     (if i < 0 then CHR ''-'' # digits_of (Suc (nat (- i))) (nat (- i))
      else digits_of (Suc (nat i)) (nat i))"

text \<open>
  \<^verbatim>\<open>json.dump\<close> followed by \<^verbatim>\<open>json.load\<close>, as one function on decoded values. The
  encoder writes \<^verbatim>\<open>None\<close>, truth values, numbers, strings, lists and dictionaries, and
  raises \<^verbatim>\<open>TypeError\<close> on every other value. A key of a JSON object is a string: the
  encoder writes a string key as it is, a number, a truth value or \<^verbatim>\<open>None\<close> as its text,
  and raises \<^verbatim>\<open>TypeError\<close> on any other key. The text of a floating-point number is
  what \<^verbatim>\<open>float.__repr__\<close> gives, the parameter \<open>repr\<close>. The decoder builds a dictionary
  by assigning the items in the order of the text, so of two items with one key the
  second value stays, at the place of the first.
\<close>

fun json_key :: "(rat \<Rightarrow> string) \<Rightarrow> json \<Rightarrow> py_error + string" where
  "json_key repr (JStr s) = Inr s"
| "json_key repr (JNum i) = Inr (str_of_int i)"
| "json_key repr (JBool b) = Inr (if b then ''true'' else ''false'')"
| "json_key repr JNull = Inr ''null''"
| "json_key repr (JFloat q) = Inr (repr q)"
| "json_key repr (JNonfinite x) =
     Inr (case x of PosInf \<Rightarrow> ''Infinity'' | NegInf \<Rightarrow> ''-Infinity'' | NaN \<Rightarrow> ''NaN'')"
| "json_key repr v = Inl TypeError"

definition assign_items :: "('k \<times> 'v) list \<Rightarrow> ('k \<times> 'v) list" where
  "assign_items items = fold (\<lambda>kv. AList.update (fst kv) (snd kv)) items []"

fun json_coding :: "(rat \<Rightarrow> string) \<Rightarrow> json \<Rightarrow> py_error + json"
  and json_coding_list :: "(rat \<Rightarrow> string) \<Rightarrow> json list \<Rightarrow> py_error + json list"
  and json_coding_items ::
    "(rat \<Rightarrow> string) \<Rightarrow> (json \<times> json) list \<Rightarrow> py_error + (json \<times> json) list"
where
  "json_coding repr JNull = Inr JNull"
| "json_coding repr (JBool b) = Inr (JBool b)"
| "json_coding repr (JNum i) = Inr (JNum i)"
| "json_coding repr (JFloat q) = Inr (JFloat q)"
| "json_coding repr (JNonfinite x) = Inr (JNonfinite x)"
| "json_coding repr (JStr s) = Inr (JStr s)"
| "json_coding repr (JBytes s) = Inl TypeError"
| "json_coding repr (JDate s) = Inl TypeError"
| "json_coding repr (JSet xs) = Inl TypeError"
| "json_coding repr (JArr xs) = bindE (json_coding_list repr xs) (\<lambda>ys. Inr (JArr ys))"
| "json_coding repr (JObj kvs) =
     bindE (json_coding_items repr kvs) (\<lambda>items. Inr (JObj (assign_items items)))"
| "json_coding_list repr [] = Inr []"
| "json_coding_list repr (x # xs) =
     bindE (json_coding repr x) (\<lambda>y.
     bindE (json_coding_list repr xs) (\<lambda>ys. Inr (y # ys)))"
| "json_coding_items repr [] = Inr []"
| "json_coding_items repr (kv # kvs) =
     bindE (json_key repr (fst kv)) (\<lambda>k.
     bindE (json_coding repr (snd kv)) (\<lambda>v.
     bindE (json_coding_items repr kvs) (\<lambda>rest. Inr ((JStr k, v) # rest))))"

text \<open>
  \<^verbatim>\<open>persist_cache\<close>. The dictionary \<open>out\<close> gets one entry for every node,
  \<^verbatim>\<open>out[n] = {"attrs": attrs, "deps": deps}\<close>, and is written as JSON to a temporary
  file, which is then moved over the cache file. Every exception is caught and logged as
  an error, and the cache file stays as it was: when the encoder raises, and when the
  file cannot be written or moved (\<open>writable\<close> is false). The model keeps the decoded
  value of the text in the file.
\<close>

definition cache_entry :: "graph \<Rightarrow> json \<Rightarrow> json" where
  "cache_entry g n =
     JObj [(JStr ''attrs'', JObj (map (\<lambda>kv. (JStr (fst kv), snd kv)) (attrs g n))),
           (JStr ''deps'', JArr (succ g n))]"

definition out_dict :: "graph \<Rightarrow> (json \<times> json) list" where
  "out_dict g = fold (\<lambda>n out. AList.update n (cache_entry g n) out) (nodes g) []"

definition persist_cache ::
  "(rat \<Rightarrow> string) \<Rightarrow> bool \<Rightarrow> graph \<Rightarrow> cache_file \<Rightarrow> cache_file \<times> log_level" where
  "persist_cache repr writable g old =
     (if \<not> writable then (old, Error)
      else case json_coding repr (JObj (out_dict g)) of
             Inl e \<Rightarrow> (old, Error)
           | Inr v \<Rightarrow> (Content v, Info))"

section \<open>Graphs built by adding packages\<close>

text \<open>
  A graph built purely through \<^verbatim>\<open>add_package_from_metafile\<close>, starting from the empty
  graph; a call that raises leaves what it had already entered, as in the scan of the
  ports tree, which goes on after an exception.
\<close>

definition build_graph :: "env \<Rightarrow> json list \<Rightarrow> graph" where
  "build_graph E paths = fold (\<lambda>p g. snd (add_package_from_metafile E p g)) paths empty_graph"

fun is_str :: "json \<Rightarrow> bool" where
  "is_str (JStr s) = True"
| "is_str v = False"

text \<open>
  What holds of every graph so built, beyond \<open>wf_graph\<close>: nothing is stored for a value
  that is not a node, and an attribute dictionary has no key twice and no key named like
  a parameter of \<^verbatim>\<open>add_node\<close>.
\<close>

definition attrs_ok :: "(string \<times> json) list \<Rightarrow> bool" where
  "attrs_ok kw \<longleftrightarrow> distinct (map fst kw) \<and> ''self'' \<notin> fst ` set kw
     \<and> ''node_for_adding'' \<notin> fst ` set kw"

definition built_inv :: "graph \<Rightarrow> bool" where
  "built_inv g \<longleftrightarrow> wf_graph g
     \<and> (\<forall>n. n \<notin> set (nodes g) \<longrightarrow> attrs g n = [] \<and> succ g n = [])
     \<and> (\<forall>n. attrs_ok (attrs g n))"

text \<open>
  The values that the JSON coding gives back as they are: \<^verbatim>\<open>None\<close>, truth values,
  numbers and strings, lists of such values, and dictionaries of such values whose keys
  are strings.
\<close>

fun codable :: "json \<Rightarrow> bool"
  and codable_list :: "json list \<Rightarrow> bool"
  and codable_items :: "(json \<times> json) list \<Rightarrow> bool"
where
  "codable JNull = True"
| "codable (JBool b) = True"
| "codable (JNum i) = True"
| "codable (JFloat q) = True"
| "codable (JNonfinite x) = True"
| "codable (JStr s) = True"
| "codable (JBytes s) = False"
| "codable (JDate s) = False"
| "codable (JSet xs) = False"
| "codable (JArr xs) = codable_list xs"
| "codable (JObj kvs) = (distinct (map fst kvs) \<and> codable_items kvs)"
| "codable_list [] = True"
| "codable_list (x # xs) = (codable x \<and> codable_list xs)"
| "codable_items [] = True"
| "codable_items (kv # kvs) = (is_str (fst kv) \<and> codable (snd kv) \<and> codable_items kvs)"

section \<open>Resolution\<close>

subsection \<open>Collecting the dependencies\<close>

text \<open>
  The first loop of \<^verbatim>\<open>resolve\<close>: a depth-first walk from the root. The stack is a
  list whose head is the top; \<open>opt\<close> is the dictionary \<^verbatim>\<open>optional_to_ask\<close>, in
  insertion order.
\<close>

function collect ::
  "graph \<Rightarrow> json list \<Rightarrow> json set \<Rightarrow> json set \<Rightarrow> (json \<times> json) list
    \<Rightarrow> py_error + (json set \<times> (json \<times> json) list)" where
  "collect g [] visited deps opt = Inr (deps, opt)"
| "collect g (cur # stack) visited deps opt =
     (if cur \<in> visited then collect g stack visited deps opt
      else case successors g cur of
             Inl e \<Rightarrow> Inl e
           | Inr ss \<Rightarrow>
               let ds = filter (\<lambda>d. d \<noteq> cur) ss;
                   ov = py_or (dict_get (attrs g cur) ''optional'' JNull) (JArr [])
               in collect g (rev ds @ stack) (insert cur visited) (deps \<union> set ds)
                    (if truthy ov then opt @ [(cur, ov)] else opt))"
  by pat_completeness auto
termination
proof (relation "measures [\<lambda>(g, stack, visited, deps, opt). card (set (nodes g) - visited),
                          \<lambda>(g, stack, visited, deps, opt). length stack]")
  show "wf (measures [\<lambda>(g, stack, visited, deps, opt). card (set (nodes g) - visited),
                      \<lambda>(g, stack, visited, deps, opt). length stack])"
    by simp
next
  fix g :: graph and cur :: json and stack :: "json list" and visited deps :: "json set"
    and opt :: "(json \<times> json) list"
  assume "cur \<in> visited"
  then show "((g, stack, visited, deps, opt), (g, cur # stack, visited, deps, opt))
      \<in> measures [\<lambda>(g, stack, visited, deps, opt). card (set (nodes g) - visited),
                   \<lambda>(g, stack, visited, deps, opt). length stack]"
    by simp
next
  fix g :: graph and cur :: json and stack :: "json list" and visited deps :: "json set"
    and opt :: "(json \<times> json) list" and ss ds :: "json list" and ov :: json
  assume nv: "cur \<notin> visited" and s: "successors g cur = Inr ss"
  from s have "cur \<in> set (nodes g)"
    by (simp add: successors_def split: if_splits)
  with nv have "set (nodes g) - insert cur visited \<subset> set (nodes g) - visited" by auto
  then have "card (set (nodes g) - insert cur visited) < card (set (nodes g) - visited)"
    by (intro psubset_card_mono) auto
  then show "((g, rev ds @ stack, insert cur visited, deps \<union> set ds,
               if truthy ov then opt @ [(cur, ov)] else opt),
              (g, cur # stack, visited, deps, opt))
      \<in> measures [\<lambda>(g, stack, visited, deps, opt). card (set (nodes g) - visited),
                   \<lambda>(g, stack, visited, deps, opt). length stack]"
    by simp
qed

subsection \<open>Optional dependencies\<close>

text \<open>
  The inner loop for an accepted candidate:
  \<^verbatim>\<open>for dep in successors(c): if dep not in deps_set: deps_set.add(dep); stack.append(dep)\<close>.
\<close>

fun push_new :: "json list \<Rightarrow> json set \<Rightarrow> json list \<Rightarrow> json set \<times> json list" where
  "push_new [] deps stack = (deps, stack)"
| "push_new (d # ds) deps stack =
     (if d \<notin> deps then push_new ds (insert d deps) (d # stack) else push_new ds deps stack)"

lemma push_new_measure:
  "push_new ds deps stack = (deps', stack') \<Longrightarrow> finite N \<Longrightarrow>
   card (N - deps') + length (filter (\<lambda>x. x \<in> N) stack')
     = card (N - deps) + length (filter (\<lambda>x. x \<in> N) stack)"
proof (induction ds arbitrary: deps stack)
  case Nil
  then show ?case by simp
next
  case (Cons d ds)
  show ?case
  proof (cases "d \<in> deps")
    case True
    with Cons show ?thesis by simp
  next
    case False
    with Cons.prems have p: "push_new ds (insert d deps) (d # stack) = (deps', stack')" by simp
    note IH = Cons.IH [OF p Cons.prems(2)]
    show ?thesis
    proof (cases "d \<in> N")
      case True
      have "N - deps = insert d (N - insert d deps)" using True False by auto
      moreover have "d \<notin> N - insert d deps" by simp
      ultimately have "card (N - deps) = Suc (card (N - insert d deps))"
        using Cons.prems(2) by (metis card_insert_disjoint finite_Diff)
      with IH True show ?thesis by simp
    next
      case nin: False
      then have "N - insert d deps = N - deps" by auto
      with IH nin show ?thesis by simp
    qed
  qed
qed

function merge_deps :: "graph \<Rightarrow> json list \<Rightarrow> json set \<Rightarrow> py_error + json set" where
  "merge_deps g [] deps = Inr deps"
| "merge_deps g (c # stack) deps =
     (case successors g c of
        Inl e \<Rightarrow> Inl e
      | Inr ss \<Rightarrow> merge_deps g (snd (push_new ss deps stack)) (fst (push_new ss deps stack)))"
  by pat_completeness auto
termination
proof (relation "measure (\<lambda>(g, stack, deps).
          card (set (nodes g) - deps) + length (filter (\<lambda>x. x \<in> set (nodes g)) stack))")
  show "wf (measure (\<lambda>(g, stack, deps).
          card (set (nodes g) - deps) + length (filter (\<lambda>x. x \<in> set (nodes g)) stack)))"
    by simp
next
  fix g :: graph and c :: json and stack :: "json list" and deps :: "json set"
    and ss :: "json list"
  assume s: "successors g c = Inr ss"
  then have c: "c \<in> set (nodes g)" by (simp add: successors_def split: if_splits)
  obtain deps' stack' where p: "push_new ss deps stack = (deps', stack')"
    by (cases "push_new ss deps stack")
  have "card (set (nodes g) - deps') + length (filter (\<lambda>x. x \<in> set (nodes g)) stack')
     = card (set (nodes g) - deps) + length (filter (\<lambda>x. x \<in> set (nodes g)) stack)"
    using p by (rule push_new_measure) simp
  with c p show "((g, snd (push_new ss deps stack), fst (push_new ss deps stack)),
                  (g, c # stack, deps))
      \<in> measure (\<lambda>(g, stack, deps).
          card (set (nodes g) - deps) + length (filter (\<lambda>x. x \<in> set (nodes g)) stack))"
    by simp
qed

text \<open>
  The prompts for the candidates of one parent. The state is the number of prompts made
  so far, the graph (a candidate that is not in the graph is added from its descriptor)
  and \<^verbatim>\<open>deps_set\<close>. The set \<^verbatim>\<open>selected_optional\<close> is never read; adding a
  candidate to it raises \<^verbatim>\<open>TypeError\<close> when the candidate cannot be hashed.
\<close>

fun ask_opts ::
  "env \<Rightarrow> json \<Rightarrow> json list \<Rightarrow> nat \<times> graph \<times> json set \<Rightarrow> py_error + nat \<times> graph \<times> json set"
  where
  "ask_opts E parent [] st = Inr st"
| "ask_opts E parent (ov # os) (k, g, deps) =
     (if ask E k parent ov then
        if \<not> hashable ov then Inl TypeError
        else
          (case (if ov \<in> set (nodes g) then (Inr None, g)
                 else add_package_from_metafile E ov g) of
             (Inl e, g1) \<Rightarrow> Inl e
           | (Inr r, g1) \<Rightarrow>
               (case merge_deps g1 [ov] deps of
                  Inl e \<Rightarrow> Inl e
                | Inr deps1 \<Rightarrow> ask_opts E parent os (Suc k, g1, deps1)))
      else ask_opts E parent os (Suc k, g, deps))"

fun ask_all ::
  "env \<Rightarrow> (json \<times> json) list \<Rightarrow> nat \<times> graph \<times> json set
    \<Rightarrow> py_error + nat \<times> graph \<times> json set" where
  "ask_all E [] st = Inr st"
| "ask_all E ((parent, opts) # rest) st =
     (case py_iter opts of
        Inl e \<Rightarrow> Inl e
      | Inr os \<Rightarrow> (case ask_opts E parent os st of
                     Inl e \<Rightarrow> Inl e
                   | Inr st1 \<Rightarrow> ask_all E rest st1))"

subsection \<open>The induced subgraph\<close>

text \<open>
  \<^verbatim>\<open>self.graph.subgraph(sub_nodes).copy()\<close>: the nodes of the graph that are in
  \<open>sub_nodes\<close> and the edges between them. The copy is filled by iterating over a view
  that follows either the graph or the set \<open>sub_nodes\<close>, so the order of its nodes and
  of the successors of a node is an iteration order of a set.
\<close>

definition subgraph :: "env \<Rightarrow> graph \<Rightarrow> json set \<Rightarrow> graph" where
  "subgraph E g S =
     \<lparr>nodes = set_iter E (filter (\<lambda>n. n \<in> S) (nodes g)),
      attrs = (\<lambda>n. if n \<in> S \<and> n \<in> set (nodes g) then attrs g n else []),
      succ = (\<lambda>n. if n \<in> S \<and> n \<in> set (nodes g)
                   then set_iter E (filter (\<lambda>m. m \<in> S) (succ g n)) else [])\<rparr>"

subsection \<open>Simple cycles\<close>

text \<open>
  \<^verbatim>\<open>nx.simple_cycles\<close> is a library function. Its contract: it lists the elementary
  circuits of the graph, each once, as a list of nodes. The model enumerates them from
  their first node in the node order: \<open>paths_back g s allowed path cur\<close> lists the
  circuits that start at \<open>s\<close>, have run along \<open>path\<close> (reversed) to \<open>cur\<close>, and
  continue through nodes of \<open>allowed\<close> only.
\<close>

function paths_back :: "graph \<Rightarrow> json \<Rightarrow> json list \<Rightarrow> json list \<Rightarrow> json \<Rightarrow> json list list" where
  "paths_back g s allowed path cur =
     concat (map (\<lambda>w. if w = s then [rev (cur # path)]
                       else if w \<in> set allowed
                       then paths_back g s (removeAll w allowed) (cur # path) w
                       else [])
                 (succ g cur))"
  by pat_completeness auto
termination
proof (relation "measure (\<lambda>(g, s, allowed, path, cur). length allowed)")
  show "wf (measure (\<lambda>(g, s, allowed, path, cur). length allowed))" by simp
next
  fix g :: graph and s :: json and allowed path :: "json list" and cur w :: json
  assume "w \<in> set allowed"
  then have "length (removeAll w allowed) < length allowed"
    by (induction allowed) (auto simp: less_Suc_eq_le length_removeAll_less_eq)
  then show "((g, s, removeAll w allowed, cur # path, w), (g, s, allowed, path, cur))
      \<in> measure (\<lambda>(g, s, allowed, path, cur). length allowed)"
    by simp
qed

declare paths_back.simps [simp del]

fun cycles_in :: "graph \<Rightarrow> json list \<Rightarrow> json list list" where
  "cycles_in g [] = []"
| "cycles_in g (s # rest) = paths_back g s rest [] s @ cycles_in g rest"

definition simple_cycles :: "graph \<Rightarrow> json list list" where
  "simple_cycles g = cycles_in g (nodes g)"

text \<open>\<^verbatim>\<open>','.join(c)\<close> raises \<^verbatim>\<open>TypeError\<close> when an item is not a string.\<close>

fun join_strs :: "string \<Rightarrow> json list \<Rightarrow> py_error + string" where
  "join_strs sep [] = Inr []"
| "join_strs sep [JStr s] = Inr s"
| "join_strs sep (JStr s # rest) = bindE (join_strs sep rest) (\<lambda>r. Inr (s @ sep @ r))"
| "join_strs sep (v # rest) = Inl TypeError"

subsection \<open>Topological sort\<close>

text \<open>
  \<^verbatim>\<open>nx.topological_sort\<close> is a library function; it yields the generations of
  \<^verbatim>\<open>nx.topological_generations\<close> one after the other. The model follows that
  function: a dictionary of the nodes whose in-degree is still positive, and the list
  of the nodes whose in-degree has reached zero.
\<close>

definition in_degree :: "graph \<Rightarrow> json \<Rightarrow> int" where
  "in_degree g v = int (length (filter (\<lambda>u. v \<in> set (succ g u)) (nodes g)))"

text \<open>
  \<^verbatim>\<open>indegree_map[child] -= 1\<close>, and the move of \<open>child\<close> to \<open>zero_indegree\<close> when the
  count reaches zero. A child that is not in the dictionary gives \<^verbatim>\<open>KeyError\<close>, which
  the library turns into \<^verbatim>\<open>RuntimeError\<close>; the resolver catches every exception of the
  sort, so the model has one error for them, \<open>NetworkXUnfeasible\<close>.
\<close>

fun visit_child ::
  "json \<Rightarrow> (json \<times> int) list \<times> json list \<Rightarrow> py_error + (json \<times> int) list \<times> json list" where
  "visit_child child (indeg, zero) =
     (case map_of indeg child of
        None \<Rightarrow> Inl NetworkXUnfeasible
      | Some d \<Rightarrow>
          if d - 1 = 0 then Inr (AList.delete child indeg, zero @ [child])
          else Inr (AList.update child (d - 1) indeg, zero))"

fun visit_children ::
  "json list \<Rightarrow> (json \<times> int) list \<times> json list \<Rightarrow> py_error + (json \<times> int) list \<times> json list"
  where
  "visit_children [] st = Inr st"
| "visit_children (c # cs) st = bindE (visit_child c st) (visit_children cs)"

fun run_generation ::
  "graph \<Rightarrow> json list \<Rightarrow> (json \<times> int) list \<times> json list
    \<Rightarrow> py_error + (json \<times> int) list \<times> json list" where
  "run_generation g [] st = Inr st"
| "run_generation g (node # rest) st =
     (if node \<notin> set (nodes g) then Inl NetworkXUnfeasible
      else bindE (visit_children (succ g node) st) (run_generation g rest))"

lemma visit_child_length:
  "visit_child c (indeg, zero) = Inr (indeg', zero') \<Longrightarrow>
   length indeg' + length zero' \<le> length indeg + length zero"
proof -
  assume a: "visit_child c (indeg, zero) = Inr (indeg', zero')"
  then obtain d where d: "map_of indeg c = Some d" by (auto split: option.splits)
  then have "c \<in> fst ` set indeg" by (auto dest: map_of_SomeD intro: rev_image_eqI)
  then have "length (AList.delete c indeg) < length indeg"
    by (induction indeg) (force simp: less_Suc_eq_le length_delete_le Suc_le_eq)+
  moreover have "length (AList.update c x indeg) = length indeg" for x
    using \<open>c \<in> fst ` set indeg\<close> by (induction indeg) auto
  ultimately show ?thesis using a d by (auto split: if_splits)
qed

lemma visit_children_length:
  "visit_children cs st = Inr st' \<Longrightarrow>
   length (fst st') + length (snd st') \<le> length (fst st) + length (snd st)"
proof (induction cs arbitrary: st)
  case Nil
  then show ?case by simp
next
  case (Cons c cs)
  from Cons.prems obtain st1 where 1: "visit_child c st = Inr st1"
    and 2: "visit_children cs st1 = Inr st'"
    by (cases "visit_child c st") auto
  have "length (fst st1) + length (snd st1) \<le> length (fst st) + length (snd st)"
    using visit_child_length [of c "fst st" "snd st" "fst st1" "snd st1"] 1 by simp
  with Cons.IH [OF 2] show ?case by simp
qed

lemma run_generation_length:
  "run_generation g ns st = Inr st' \<Longrightarrow>
   length (fst st') + length (snd st') \<le> length (fst st) + length (snd st)"
proof (induction ns arbitrary: st)
  case Nil
  then show ?case by simp
next
  case (Cons n ns)
  from Cons.prems obtain st1 where 1: "visit_children (succ g n) st = Inr st1"
    and 2: "run_generation g ns st1 = Inr st'"
    by (cases "visit_children (succ g n) st") (auto split: if_splits)
  from visit_children_length [OF 1] Cons.IH [OF 2] show ?case by simp
qed

function topo_generations ::
  "graph \<Rightarrow> (json \<times> int) list \<Rightarrow> json list \<Rightarrow> py_error + json list list" where
  "topo_generations g indeg zero =
     (if zero = [] then (if indeg \<noteq> [] then Inl NetworkXUnfeasible else Inr [])
      else case run_generation g zero (indeg, []) of
             Inl e \<Rightarrow> Inl e
           | Inr st \<Rightarrow> bindE (topo_generations g (fst st) (snd st))
                         (\<lambda>gens. Inr (zero # gens)))"
  by pat_completeness auto
termination
proof (relation "measure (\<lambda>(g, indeg, zero). 2 * length indeg + (if zero = [] then 0 else 1))")
  show "wf (measure (\<lambda>(g, indeg, zero). 2 * length indeg + (if zero = [] then 0 else 1)))"
    by simp
next
  fix g :: graph and indeg :: "(json \<times> int) list" and zero :: "json list"
    and st :: "(json \<times> int) list \<times> json list"
  assume z: "zero \<noteq> []" and r: "run_generation g zero (indeg, []) = Inr st"
  from run_generation_length [OF r]
  have "length (fst st) + length (snd st) \<le> length indeg" by simp
  then have "2 * length (fst st) + (if snd st = [] then 0 else 1) < 2 * length indeg + 1"
    by (cases "snd st") auto
  with z show "((g, fst st, snd st), (g, indeg, zero))
      \<in> measure (\<lambda>(g, indeg, zero). 2 * length indeg + (if zero = [] then 0 else 1))"
    by (cases st) simp
qed

declare topo_generations.simps [simp del]

definition topological_sort :: "graph \<Rightarrow> py_error + json list" where
  "topological_sort g =
     bindE (topo_generations g
              (filter (\<lambda>vd. snd vd > 0) (map (\<lambda>v. (v, in_degree g v)) (nodes g)))
              (filter (\<lambda>v. in_degree g v = 0) (nodes g)))
       (\<lambda>gens. Inr (concat gens))"

subsection \<open>resolve\<close>

text \<open>
  The steps of \<^verbatim>\<open>resolve\<close> up to the set \<open>sub_nodes\<close>: \<open>None\<close> when the root is
  neither in the graph nor supplied by the Descriptor Source, else the graph (which
  adding the root or an accepted candidate may have changed) and \<open>sub_nodes\<close>.
\<close>

definition resolve_nodes :: "env \<Rightarrow> graph \<Rightarrow> json \<Rightarrow> bool \<Rightarrow> py_error + (graph \<times> json set) option"
  where
  "resolve_nodes E g root_pkg include_optional_prompt =
     (if \<not> hashable root_pkg then Inl TypeError
      else
        case (if root_pkg \<in> set (nodes g) then (Inr (Some root_pkg), g)
              else add_package_from_metafile E root_pkg g) of
          (Inl e, g1) \<Rightarrow> Inl e
        | (Inr None, g1) \<Rightarrow> Inr None
        | (Inr (Some added), g1) \<Rightarrow>
            (case collect g1 [root_pkg] {} {} [] of
               Inl e \<Rightarrow> Inl e
             | Inr (deps_set, optional_to_ask) \<Rightarrow>
                 (case (if optional_to_ask \<noteq> [] \<and> include_optional_prompt
                           \<and> truthy (dict_get (config E) ''resolve_optional'' (JBool False))
                        then ask_all E optional_to_ask (0, g1, deps_set)
                        else Inr (0, g1, deps_set)) of
                    Inl e \<Rightarrow> Inl e
                  | Inr (k, g2, deps2) \<Rightarrow> Inr (Some (g2, insert root_pkg deps2)))))"

text \<open>
  \<^verbatim>\<open>resolve\<close>: the graph after the call, the build order and the cycle report. A root
  that is not found gives two empty lists; so does an exception of the topological sort,
  which the function catches.
\<close>

definition resolve ::
  "env \<Rightarrow> graph \<Rightarrow> json \<Rightarrow> bool \<Rightarrow> py_error + graph \<times> json list \<times> string list" where
  "resolve E g root_pkg include_optional_prompt =
     (case resolve_nodes E g root_pkg include_optional_prompt of
        Inl e \<Rightarrow> Inl e
      | Inr None \<Rightarrow> Inr (g, [], [])
      | Inr (Some (g2, sub_nodes)) \<Rightarrow>
          let subg = subgraph E g2 sub_nodes;
              cycles = simple_cycles subg
          in if cycles \<noteq> []
             then bindE (map_raising (join_strs '','') cycles) (\<lambda>report. Inr (g2, [], report))
             else (case topological_sort subg of
                     Inl e \<Rightarrow> Inr (g2, [], [])
                   | Inr topo \<Rightarrow> Inr (g2, rev topo, [])))"

section \<open>Notions used to state and prove the properties\<close>

text \<open>A list of nodes in which every node comes after all the nodes it has an edge from.\<close>

definition topo_ordered :: "graph \<Rightarrow> json list \<Rightarrow> bool" where
  "topo_ordered g xs \<longleftrightarrow>
     (\<forall>ys v zs. xs = ys @ v # zs \<longrightarrow> (\<forall>u. (u, v) \<in> edges g \<longrightarrow> u \<in> set ys))"

text \<open>The edges that leave a set of nodes, and the edges into a node not yet counted.\<close>

definition edges_from :: "graph \<Rightarrow> json set \<Rightarrow> (json \<times> json) set" where
  "edges_from g P = {(u, v). (u, v) \<in> edges g \<and> u \<in> P}"

definition uncounted :: "graph \<Rightarrow> (json \<times> json) set \<Rightarrow> json \<Rightarrow> json set" where
  "uncounted g A v = {u. (u, v) \<in> edges g \<and> (u, v) \<notin> A}"

text \<open>
  The invariant of the topological sort. \<open>out\<close> holds the generations up to the current
  one, \<open>A\<close> the edges whose source has visited their target, \<open>indeg\<close> and \<open>zero\<close> are
  the dictionary and the list of the next generation.
\<close>

definition kahn_inv ::
  "graph \<Rightarrow> json list \<Rightarrow> (json \<times> json) set \<Rightarrow> (json \<times> int) list \<Rightarrow> json list \<Rightarrow> bool" where
  "kahn_inv g out A indeg zero \<longleftrightarrow>
     distinct (out @ zero) \<and> distinct (map fst indeg)
     \<and> set out \<union> set zero \<union> fst ` set indeg = set (nodes g)
     \<and> (set out \<union> set zero) \<inter> fst ` set indeg = {}
     \<and> A \<subseteq> edges g \<and> fst ` A \<subseteq> set out
     \<and> (\<forall>v d. map_of indeg v = Some d \<longrightarrow> d = int (card (uncounted g A v)) \<and> 0 < d)
     \<and> (\<forall>v u. v \<in> set out \<union> set zero \<longrightarrow> (u, v) \<in> edges g \<longrightarrow> (u, v) \<in> A)
     \<and> topo_ordered g out"

text \<open>
  A walk follows an edge from each node to the next. A simple cycle is a list of distinct
  nodes with a walk along it and back to its first node; two lists name the same cycle
  when one is a rotation of the other.
\<close>

fun walk :: "graph \<Rightarrow> json list \<Rightarrow> bool" where
  "walk g [] = True"
| "walk g [x] = True"
| "walk g (x # y # zs) = ((x, y) \<in> edges g \<and> walk g (y # zs))"

definition is_simple_cycle :: "graph \<Rightarrow> json list \<Rightarrow> bool" where
  "is_simple_cycle g c \<longleftrightarrow> c \<noteq> [] \<and> distinct c \<and> walk g (c @ [hd c])"

definition rotation :: "json list \<Rightarrow> json list \<Rightarrow> bool" where
  "rotation c c' \<longleftrightarrow> (\<exists>a b. c = a @ b \<and> c' = b @ a)"

section \<open>The notions of the orphan report\<close>

text \<open>
  The reverse-dependency set of a name within the loaded graph: the nodes with an edge
  into a node that Python takes for equal to the name.
\<close>

definition dependents :: "graph \<Rightarrow> json \<Rightarrow> json set" where
  "dependents g n = {a. \<exists>b. (a, b) \<in> edges g \<and> py_key b = py_key n}"

text \<open>
  The name that an entry of the installed-package list gives: the value under the key
  \<open>name\<close> of an entry that is a dictionary, unless that value is missing or empty
  (\<^verbatim>\<open>None\<close>, false, zero, an empty string or container).
\<close>

definition listed_name :: "json \<Rightarrow> json option" where
  "listed_name it =
     (case it of
        JObj kvs \<Rightarrow> (case map_of kvs (JStr ''name'') of
                      Some v \<Rightarrow> if truthy v then Some v else None
                    | None \<Rightarrow> None)
      | _ \<Rightarrow> None)"

section \<open>The accepted optional candidates\<close>

text \<open>
  Whether \<^verbatim>\<open>resolve\<close> prompts at all, and the candidates to which the decision provider
  answers yes, in the order of the prompts: for the candidates of one parent, for the
  whole dictionary \<^verbatim>\<open>optional_to_ask\<close>, and for a call of \<^verbatim>\<open>resolve\<close>.
\<close>

definition prompting :: "env \<Rightarrow> bool \<Rightarrow> bool" where
  "prompting E include_optional_prompt \<longleftrightarrow>
     include_optional_prompt \<and> truthy (dict_get (config E) ''resolve_optional'' (JBool False))"

fun accepted_opts :: "env \<Rightarrow> json \<Rightarrow> json list \<Rightarrow> nat \<Rightarrow> json list" where
  "accepted_opts E parent [] k = []"
| "accepted_opts E parent (ov # os) k =
     (if ask E k parent ov then ov # accepted_opts E parent os (Suc k)
      else accepted_opts E parent os (Suc k))"

fun accepted_all :: "env \<Rightarrow> (json \<times> json) list \<Rightarrow> nat \<Rightarrow> json list" where
  "accepted_all E [] k = []"
| "accepted_all E ((parent, opts) # rest) k =
     (case py_iter opts of
        Inl e \<Rightarrow> []
      | Inr os \<Rightarrow> accepted_opts E parent os k @ accepted_all E rest (k + length os))"

definition accepted_candidates :: "env \<Rightarrow> graph \<Rightarrow> json \<Rightarrow> bool \<Rightarrow> json list" where
  "accepted_candidates E g root_pkg include_optional_prompt =
     (case (if root_pkg \<in> set (nodes g) then (Inr (Some root_pkg), g)
            else add_package_from_metafile E root_pkg g) of
        (Inr (Some added), g1) \<Rightarrow>
          (case collect g1 [root_pkg] {} {} [] of
             Inr (deps_set, optional_to_ask) \<Rightarrow>
               if prompting E include_optional_prompt then accepted_all E optional_to_ask 0
               else []
           | Inl e \<Rightarrow> [])
      | _ \<Rightarrow> [])"

section \<open>Example inputs\<close>

text \<open>A descriptor whose runtime dependency list holds a blank entry.\<close>

definition blank_meta :: "(json \<times> json) list" where
  "blank_meta = [(JStr ''name'', JStr ''pkg''),
     (JStr ''runtime'', JObj [(JStr ''depends'', JArr [JStr ''libfoo'', JStr '' ''])])]"


text \<open>Collaborators that supply nothing and answer no.\<close>

definition quiet_env :: env where
  "quiet_env = \<lparr>parse_metafile = (\<lambda>p. None), set_iter = remdups,
     ask = (\<lambda>k parent candidate. False), config = [], db_revdeps = (\<lambda>p. [])\<rparr>"

text \<open>The chain \<open>A \<rightarrow> B \<rightarrow> C\<close>.\<close>

definition chain_graph :: graph where
  "chain_graph = \<lparr>nodes = [JStr ''A'', JStr ''B'', JStr ''C''], attrs = (\<lambda>n. []),
     succ = (\<lambda>n. if n = JStr ''A'' then [JStr ''B'']
                  else if n = JStr ''B'' then [JStr ''C''] else [])\<rparr>"

text \<open>The graph with the single edge \<open>Z \<rightarrow> X\<close>, and the installed packages \<open>X\<close>, \<open>Y\<close>.\<close>

definition orphan_graph :: graph where
  "orphan_graph = \<lparr>nodes = [JStr ''Z'', JStr ''X''], attrs = (\<lambda>n. []),
     succ = (\<lambda>n. if n = JStr ''Z'' then [JStr ''X''] else [])\<rparr>"

definition installed_xy :: json where
  "installed_xy = JArr [JObj [(JStr ''name'', JStr ''X'')], JObj [(JStr ''name'', JStr ''Y'')]]"

text \<open>A cache file whose second entry is not a dictionary.\<close>

definition broken_cache :: cache_file where
  "broken_cache = Content (JObj [(JStr ''a'', JObj [(JStr ''attrs'', JObj []), (JStr ''deps'', JArr [])]),
                                (JStr ''b'', JNum 5)])"

text \<open>A ports tree with one descriptor, for the package \<open>app\<close>.\<close>

definition app_meta :: "(json \<times> json) list" where
  "app_meta = [(JStr ''name'', JStr ''app''), (JStr ''version'', JStr ''1.0''),
     (JStr ''runtime'', JObj [(JStr ''depends'', JArr [JStr ''libfoo>=1.2'',
                                           JObj [(JStr ''name'', JStr ''libbar'')]])]),
     (JStr ''build'', JObj [(JStr ''optional'', JArr [JStr ''docs''])])]"

definition app_env :: env where
  "app_env = \<lparr>parse_metafile = (\<lambda>p. if p = JStr ''app'' then Some app_meta else None),
     set_iter = remdups, ask = (\<lambda>k parent candidate. False), config = [],
     db_revdeps = (\<lambda>p. [])\<rparr>"

text \<open>The graph with the single edge \<open>Z \<rightarrow> 1\<close>, whose second node is the number one.\<close>

definition number_graph :: graph where
  "number_graph = \<lparr>nodes = [JStr ''Z'', JNum 1], attrs = (\<lambda>n. []),
     succ = (\<lambda>n. if n = JStr ''Z'' then [JNum 1] else [])\<rparr>"

text \<open>
  A ports tree with one descriptor whose name is the number 7 (YAML \<^verbatim>\<open>name: 7\<close>), and
  one with a descriptor whose version is a date (YAML \<^verbatim>\<open>version: 2024-01-01\<close>).
\<close>

definition seven_env :: env where
  "seven_env = \<lparr>parse_metafile = (\<lambda>p. if p = JStr ''seven'' then Some [(JStr ''name'', JNum 7)]
                                       else None),
     set_iter = remdups, ask = (\<lambda>k parent candidate. False), config = [],
     db_revdeps = (\<lambda>p. [])\<rparr>"

definition dated_env :: env where
  "dated_env = \<lparr>parse_metafile = (\<lambda>p. if p = JStr ''tool''
                                       then Some [(JStr ''name'', JStr ''tool''),
                                                  (JStr ''version'', JDate ''2024-01-01'')]
                                       else None),
     set_iter = remdups, ask = (\<lambda>k parent candidate. False), config = [],
     db_revdeps = (\<lambda>p. [])\<rparr>"

text \<open>The cycle \<open>A \<rightarrow> B \<rightarrow> C \<rightarrow> A\<close>, and a cycle through a package whose name is a number.\<close>

definition loop_graph :: graph where
  "loop_graph = \<lparr>nodes = [JStr ''A'', JStr ''B'', JStr ''C''], attrs = (\<lambda>n. []),
     succ = (\<lambda>n. if n = JStr ''A'' then [JStr ''B'']
                  else if n = JStr ''B'' then [JStr ''C'']
                  else if n = JStr ''C'' then [JStr ''A''] else [])\<rparr>"

definition number_loop_graph :: graph where
  "number_loop_graph = \<lparr>nodes = [JNum 7, JStr ''a''], attrs = (\<lambda>n. []),
     succ = (\<lambda>n. if n = JNum 7 then [JStr ''a'']
                  else if n = JStr ''a'' then [JNum 7] else [])\<rparr>"

text \<open>
  A package \<open>app\<close> without dependencies that names the optional candidates \<open>gui\<close> and
  \<open>lib\<close>, where \<open>gui\<close> depends on \<open>lib\<close>; a configuration that turns the prompts on
  and a decision provider that answers yes to every prompt.
\<close>

definition opt_graph :: graph where
  "opt_graph = \<lparr>nodes = [JStr ''app'', JStr ''gui'', JStr ''lib''],
     attrs = (\<lambda>n. if n = JStr ''app''
                   then [(''optional'', JArr [JStr ''gui'', JStr ''lib''])] else []),
     succ = (\<lambda>n. if n = JStr ''gui'' then [JStr ''lib''] else [])\<rparr>"

definition yes_env :: env where
  "yes_env = \<lparr>parse_metafile = (\<lambda>p. None), set_iter = remdups,
     ask = (\<lambda>k parent candidate. True), config = [(''resolve_optional'', JBool True)],
     db_revdeps = (\<lambda>p. [])\<rparr>"

section \<open>Normalisation: the chain of splits cuts at the first operator\<close>


lemma index0_split_sep_from:
  "sep \<noteq> [] \<Longrightarrow> index0 (split_sep_from sep cur s) = Inr (rev cur @ before_any [sep] s)"
  by (induction sep cur s rule: split_sep_from.induct) auto

lemma split0_eq: "sep \<noteq> [] \<Longrightarrow> split0 sep s = Inr (before_any [sep] s)"
  by (simp add: split0_def split_sep_def index0_split_sep_from)

lemma prefix_before_any:
  "prefix p s \<Longrightarrow> \<forall>q \<in> set qs. q \<noteq> [] \<and> hd q \<notin> set p \<Longrightarrow> prefix p (before_any qs s)"
proof (induction s arbitrary: p)
  case Nil
  then show ?case by simp
next
  case (Cons c cs)
  show ?case
  proof (cases p)
    case Nil
    then show ?thesis by simp
  next
    case (Cons a p')
    with Cons.prems have ac: "a = c" and pp: "prefix p' cs" by auto
    have no: "\<not> (\<exists>q \<in> set qs. prefix q (c # cs))"
    proof
      assume "\<exists>q \<in> set qs. prefix q (c # cs)"
      then obtain q where q: "q \<in> set qs" "prefix q (c # cs)" by blast
      with Cons.prems(2) have "q \<noteq> []" "hd q \<notin> set p" by auto
      with q(2) have "hd q = c" by (cases q) auto
      with \<open>hd q \<notin> set p\<close> Cons ac show False by simp
    qed
    have "prefix p' (before_any qs cs)"
      using Cons.IH [OF pp] Cons.prems(2) Cons by auto
    with no ac Cons show ?thesis by simp
  qed
qed

lemma before_any_prefix: "prefix (before_any qs s) s"
  by (induction s) auto

lemma before_any_compose:
  assumes "\<forall>q \<in> set qs. q \<noteq> []" and "\<forall>p \<in> set ps. \<forall>q \<in> set qs. hd q \<notin> set (tl p)"
  shows "before_any ps (before_any qs s) = before_any (ps @ qs) s"
proof (induction s)
  case Nil
  then show ?case by simp
next
  case (Cons c cs)
  show ?case
  proof (cases "\<exists>q \<in> set qs. prefix q (c # cs)")
    case True
    then show ?thesis by auto
  next
    case False
    have eq: "(\<exists>p \<in> set ps. prefix p (c # before_any qs cs)) = (\<exists>p \<in> set ps. prefix p (c # cs))"
    proof
      assume "\<exists>p \<in> set ps. prefix p (c # before_any qs cs)"
      then obtain p where p: "p \<in> set ps" "prefix p (c # before_any qs cs)" by blast
      have "prefix (c # before_any qs cs) (c # cs)" by (simp add: before_any_prefix)
      with p show "\<exists>p \<in> set ps. prefix p (c # cs)" using prefix_order.trans by blast
    next
      assume "\<exists>p \<in> set ps. prefix p (c # cs)"
      then obtain p where p: "p \<in> set ps" "prefix p (c # cs)" by blast
      show "\<exists>p \<in> set ps. prefix p (c # before_any qs cs)"
      proof (cases p)
        case Nil
        with p(1) show ?thesis by (auto intro!: bexI [of _ "[]"])
      next
        case (Cons a p')
        with p have "a = c" "prefix p' cs" by auto
        moreover have "\<forall>q \<in> set qs. q \<noteq> [] \<and> hd q \<notin> set p'"
          using assms p(1) Cons by auto
        ultimately have "prefix p' (before_any qs cs)" by (simp add: prefix_before_any)
        then have "prefix p (c # before_any qs cs)" using \<open>a = c\<close> Cons by simp
        with p(1) show ?thesis by blast
      qed
    qed
    from False have "before_any ps (before_any qs (c # cs)) = before_any ps (c # before_any qs cs)"
      by simp
    also have "\<dots> = (if \<exists>p \<in> set ps. prefix p (c # cs) then [] else c # before_any (ps @ qs) cs)"
      using eq Cons.IH by simp
    also have "\<dots> = before_any (ps @ qs) (c # cs)"
      using False by auto
    finally show ?thesis .
  qed
qed

lemma before_any_cong_set: "set ps = set qs \<Longrightarrow> before_any ps s = before_any qs s"
  by (induction s) auto

lemma chain_eq:
  "before_any [''<''] (before_any [''>''] (before_any [''==''] (before_any [''<='']
     (before_any [''>=''] w)))) = before_any comparison_ops w"
proof -
  have 1: "before_any [''<=''] (before_any [''>=''] w) = before_any [''<='', ''>=''] w"
    using before_any_compose [of "[''>='']" "[''<='']" w] by simp
  have 2: "before_any [''==''] (before_any [''<='', ''>=''] w) = before_any [''=='', ''<='', ''>=''] w"
    using before_any_compose [of "[''<='', ''>='']" "[''=='']" w] by simp
  have 3: "before_any [''>''] (before_any [''=='', ''<='', ''>=''] w) = before_any [''>'', ''=='', ''<='', ''>=''] w"
    using before_any_compose [of "[''=='', ''<='', ''>='']" "[''>'']" w] by simp
  have 4: "before_any [''<''] (before_any [''>'', ''=='', ''<='', ''>=''] w)
       = before_any [''<'', ''>'', ''=='', ''<='', ''>=''] w"
    using before_any_compose [of "[''>'', ''=='', ''<='', ''>='']" "[''<'']" w] by simp
  show ?thesis unfolding 1 2 3 4 comparison_ops_def
    by (rule before_any_cong_set) auto
qed

lemma index0_split_ws:
  "index0 (split_ws s) = (if \<forall>c \<in> set s. is_space c then Inl IndexError else Inr (first_word s))"
proof (cases "dropWhile is_space s")
  case Nil
  then have all: "\<forall>c \<in> set s. is_space c" by (simp add: dropWhile_eq_Nil_conv)
  have "split_ws s = []" by (subst split_ws.simps) (simp only: Nil list.case)
  with all show ?thesis by simp
next
  case (Cons c cs)
  then have "\<not> (\<forall>c \<in> set s. is_space c)" using dropWhile_eq_Nil_conv [of is_space s] by auto
  moreover have "\<not> is_space c" using Cons hd_dropWhile [of is_space s] by auto
  moreover have "split_ws s = (c # takeWhile (\<lambda>x. \<not> is_space x) cs)
                 # split_ws (dropWhile (\<lambda>x. \<not> is_space x) cs)"
    by (subst split_ws.simps) (simp only: Cons list.case)
  ultimately show ?thesis using Cons by (simp add: first_word_def)
qed

lemma strip_constraint_eq:
  "strip_constraint s =
     (if \<forall>c \<in> set s. is_space c then Inl IndexError
      else Inr (before_any comparison_ops (first_word s)))"
  by (simp add: strip_constraint_def index0_split_ws split0_eq chain_eq)


lemma norm_items_blank:
  "\<exists>s. JStr s \<in> set items \<and> (\<forall>c \<in> set s. is_space c) \<Longrightarrow> norm_items items = Inl IndexError"
proof (induction items rule: norm_items.induct)
  case (2 s rest)
  show ?case
  proof (cases "\<forall>c \<in> set s. is_space c")
    case True
    then show ?thesis by (simp add: strip_constraint_eq)
  next
    case False
    with "2.prems" have "\<exists>t. JStr t \<in> set rest \<and> (\<forall>c \<in> set t. is_space c)" by auto
    with "2.IH" False show ?thesis by (simp add: strip_constraint_eq)
  qed
next
  case (3 kvs rest)
  then show ?case by (cases "map_of kvs (JStr ''name'')") auto
qed auto

lemma norm_items_error: "norm_items items = Inl e \<Longrightarrow> e = IndexError"
proof (induction items arbitrary: e rule: norm_items.induct)
  case (2 s rest)
  then show ?case
    by (cases "norm_items rest") (auto simp: strip_constraint_eq split: if_splits)
next
  case (3 kvs rest)
  then show ?case
    by (cases "map_of kvs (JStr ''name'')"; cases "norm_items rest") auto
qed auto

text \<open>
  C6, as the specification states it, fails on a token that starts with white space:
  \<^verbatim>\<open>" libfoo".split()[0]\<close> is \<^verbatim>\<open>"libfoo"\<close>, while the substring before the first
  white space is empty.
\<close>

theorem norm_list_leading_space_counterexample:
  "norm_list (JArr [JStr '' libfoo'']) \<noteq> Inr [JStr (spec_normalize '' libfoo'')]"
  by (simp add: norm_list_def strip_constraint_eq spec_normalize_def first_word_def
      is_space_def comparison_ops_def)

text \<open>
  C6, amended: a string token with a character that is not white space normalises to its
  first word (leading white space skipped), cut where the first comparison operator
  \<^verbatim>\<open>>=\<close>, \<^verbatim>\<open><=\<close>, \<^verbatim>\<open>==\<close>, \<^verbatim>\<open>>\<close>, \<^verbatim>\<open><\<close> starts; when the token does not start with white
  space this is the substring before the first white space, so cut. A structured entry
  with a \<open>name\<close> field gives that field verbatim. \<^verbatim>\<open>"libfoo>=1.2"\<close> gives
  \<^verbatim>\<open>"libfoo"\<close> and \<^verbatim>\<open>{name: "libbar"}\<close> gives \<^verbatim>\<open>"libbar"\<close>.
\<close>

theorem norm_list_token:
  "((\<exists>c \<in> set s. \<not> is_space c) \<longrightarrow>
      norm_list (JArr [JStr s]) = Inr [JStr (before_any comparison_ops (first_word s))])
   \<and> (s \<noteq> [] \<and> \<not> is_space (hd s) \<longrightarrow>
      norm_list (JArr [JStr s]) = Inr [JStr (spec_normalize s)])
   \<and> (map_of kvs (JStr ''name'') = Some v \<longrightarrow> norm_list (JArr [JObj kvs]) = Inr [v])
   \<and> norm_list (JArr [JStr ''libfoo>=1.2'']) = Inr [JStr ''libfoo'']
   \<and> norm_list (JArr [JObj [(JStr ''name'', JStr ''libbar'')]]) = Inr [JStr ''libbar'']"
proof -
  have a: "norm_list (JArr [JStr s]) = Inr [JStr (before_any comparison_ops (first_word s))]"
    if "\<exists>c \<in> set s. \<not> is_space c"
    using that by (auto simp: norm_list_def strip_constraint_eq)
  have b: "norm_list (JArr [JStr s]) = Inr [JStr (spec_normalize s)]"
    if "s \<noteq> []" "\<not> is_space (hd s)"
  proof -
    from that obtain c cs where s: "s = c # cs" "\<not> is_space c" by (cases s) auto
    then have "first_word s = takeWhile (\<lambda>x. \<not> is_space x) s"
      by (simp add: first_word_def)
    moreover have "\<exists>c \<in> set s. \<not> is_space c" using s by auto
    ultimately show ?thesis using a by (simp add: spec_normalize_def)
  qed
  have c: "norm_list (JArr [JObj kvs]) = Inr [v]" if "map_of kvs (JStr ''name'') = Some v"
    using that by (simp add: norm_list_def)
  have d: "norm_list (JArr [JStr ''libfoo>=1.2'']) = Inr [JStr ''libfoo'']"
    by (simp add: norm_list_def strip_constraint_eq first_word_def is_space_def
        comparison_ops_def)
  have e: "norm_list (JArr [JObj [(JStr ''name'', JStr ''libbar'')]]) = Inr [JStr ''libbar'']"
    by (simp add: norm_list_def)
  from a b c d e show ?thesis by blast
qed

theorem norm_list_token_witness:
  "(\<exists>c \<in> set ''libfoo >= 1.2''. \<not> is_space c)
   \<and> norm_list (JArr [JStr ''libfoo >= 1.2'']) = Inr [JStr ''libfoo'']
   \<and> map_of [(JStr ''name'', JStr ''libbar''), (JStr ''version'', JNum 2)] (JStr ''name'') = Some (JStr ''libbar'')
   \<and> norm_list (JArr [JObj [(JStr ''name'', JStr ''libbar''), (JStr ''version'', JNum 2)]])
       = Inr [JStr ''libbar'']"
proof -
  have h: "\<exists>c \<in> set ''libfoo >= 1.2''. \<not> is_space c"
    by (simp add: is_space_def)
  have k: "map_of [(JStr ''name'', JStr ''libbar''), (JStr ''version'', JNum 2)] (JStr ''name'')
      = Some (JStr ''libbar'')"
    by simp
  have w: "before_any comparison_ops (first_word ''libfoo >= 1.2'') = ''libfoo''"
    by (simp add: first_word_def is_space_def comparison_ops_def)
  from norm_list_token [of "''libfoo >= 1.2''"
      "[(JStr ''name'', JStr ''libbar''), (JStr ''version'', JNum 2)]" "JStr ''libbar''"] h k w
  show ?thesis by simp
qed

section \<open>Adding a package: blank dependency entries\<close>


lemma norm_list_blank:
  "\<exists>s. JStr s \<in> set items \<and> (\<forall>c \<in> set s. is_space c) \<Longrightarrow>
   norm_list (JArr items) = Inl IndexError"
  using norm_items_blank [of items] by (cases items) (auto simp: norm_list_def)

lemma norm_list_arr_error: "norm_list (JArr items) = Inl e \<Longrightarrow> e = IndexError"
  using norm_items_error [of items e] by (auto simp: norm_list_def split: if_splits)

text \<open>
  C10: a descriptor with a name whose build or runtime dependency list holds a string
  that is empty or all white space makes \<^verbatim>\<open>add_package_from_metafile\<close> raise
  \<^verbatim>\<open>IndexError\<close> (nothing in the function catches it), and the graph is as it was.
\<close>

theorem add_package_blank_entry:
  assumes name: "truthy (meta_name meta)"
    and lists: "meta_build_deps meta = JArr bs" "meta_run_deps meta = JArr rs"
    and blank: "JStr s \<in> set bs \<union> set rs" "\<forall>c \<in> set s. is_space c"
    and src: "parse_metafile E p = Some meta"
  shows "add_package_from_metafile E p g = (Inl IndexError, g)"
proof -
  have ne: "meta \<noteq> []"
    using name by (auto simp: meta_name_def py_or_def obj_get_def)
  have "add_meta E meta g = (Inl IndexError, g)"
  proof (cases "norm_list (JArr bs)")
    case (Inl e)
    then have "e = IndexError" by (rule norm_list_arr_error)
    with Inl name lists show ?thesis by (simp add: add_meta_def)
  next
    case (Inr bd)
    have "\<not> (\<exists>t. JStr t \<in> set bs \<and> (\<forall>c \<in> set t. is_space c))"
      using norm_list_blank [of bs] Inr by auto
    with blank have "\<exists>t. JStr t \<in> set rs \<and> (\<forall>c \<in> set t. is_space c)" by auto
    then have "norm_list (JArr rs) = Inl IndexError" by (rule norm_list_blank)
    with Inr name lists show ?thesis by (simp add: add_meta_def)
  qed
  with src ne show ?thesis by (simp add: add_package_from_metafile_def)
qed

theorem add_package_blank_entry_witness:
  "truthy (meta_name blank_meta)
   \<and> meta_build_deps blank_meta = JArr []
   \<and> meta_run_deps blank_meta = JArr [JStr ''libfoo'', JStr '' '']
   \<and> add_package_from_metafile
        \<lparr>parse_metafile = (\<lambda>p. Some blank_meta), set_iter = remdups,
         ask = (\<lambda>k a b. False), config = [], db_revdeps = (\<lambda>p. [])\<rparr>
        (JStr ''pkg'') empty_graph = (Inl IndexError, empty_graph)"
proof -
  have a: "truthy (meta_name blank_meta)"
    by (simp add: blank_meta_def meta_name_def py_or_def obj_get_def)
  have b: "meta_build_deps blank_meta = JArr []"
    by (simp add: blank_meta_def meta_build_deps_def meta_section_def py_or_def obj_get_def)
  have c: "meta_run_deps blank_meta = JArr [JStr ''libfoo'', JStr '' '']"
    by (simp add: blank_meta_def meta_run_deps_def meta_section_def py_or_def obj_get_def)
  have d: "JStr '' '' \<in> set [] \<union> set [JStr ''libfoo'', JStr '' '']" by simp
  have e: "\<forall>c \<in> set '' ''. is_space c" by (simp add: is_space_def)
  from add_package_blank_entry [OF a b c d e, of _ "JStr ''pkg''" empty_graph] a b c
  show ?thesis by simp
qed


section \<open>Orphan detection returns the installed names without dependents\<close>


lemma set_edge_list: "set (edge_list g) = edges g"
  by (auto simp: edge_list_def edges_def)

lemma fold_revdeps:
  "fold add_revdep es m k
   = (if k \<in> (\<lambda>e. py_key (snd e)) ` set es
      then Some ((case m k of None \<Rightarrow> {} | Some s \<Rightarrow> s)
                 \<union> {a. \<exists>b. (a, b) \<in> set es \<and> py_key b = k})
      else m k)"
proof (induction es arbitrary: m)
  case Nil
  then show ?case by simp
next
  case (Cons e es)
  obtain a b where e: "e = (a, b)" by (cases e)
  have step: "add_revdep (a, b) m k
      = (if k = py_key b then Some (insert a (case m k of None \<Rightarrow> {} | Some s \<Rightarrow> s))
         else m k)"
    by (simp add: add_revdep_def)
  show ?case
    unfolding e fold_simps Cons.IH step
    by (auto simp: image_iff split: option.splits)
qed

lemma fold_init_nodes:
  "fold (\<lambda>n m. m(py_key n \<mapsto> {})) ns m k
   = (if k \<in> py_key ` set ns then Some {} else m k)"
  by (induction ns arbitrary: m) auto

lemma revdeps_map_empty_iff:
  "(case revdeps_map g (py_key n) of None \<Rightarrow> {} | Some s \<Rightarrow> s) = {}
   \<longleftrightarrow> dependents g n = {}"
  unfolding revdeps_map_def fold_revdeps fold_init_nodes set_edge_list dependents_def
  by (auto simp: image_iff split: option.splits)

lemma orphans_loop_eq:
  "\<forall>n \<in> set names. hashable n \<Longrightarrow>
   orphans_loop (revdeps_map g) names = Inr (filter (\<lambda>n. dependents g n = {}) names)"
proof (induction names)
  case Nil
  then show ?case by simp
next
  case (Cons n names)
  then show ?case using revdeps_map_empty_iff [of g n] by (simp add: Let_def)
qed

lemma installed_names_list:
  "installed_names (JArr items) = List.map_filter listed_name items"
proof -
  have "concat (map (\<lambda>it. case it of
            JObj kvs \<Rightarrow> (if truthy (obj_get kvs ''name'' JNull)
                         then [obj_get kvs ''name'' JNull] else [])
          | _ \<Rightarrow> []) items) = List.map_filter listed_name items"
  proof (induction items)
    case Nil
    then show ?case by (simp add: map_filter_simps)
  next
    case (Cons it items)
    then show ?case
      by (cases it)
        (auto simp: map_filter_simps listed_name_def obj_get_def split: option.splits)
  qed
  then show ?thesis by (simp add: installed_names_def)
qed

lemma py_key_str: "py_key b = JStr s \<longleftrightarrow> b = JStr s"
  by (cases b) (auto split: if_splits)

lemma dependents_str: "dependents g (JStr s) = {a. (a, JStr s) \<in> edges g}"
  by (auto simp: dependents_def py_key_str)

lemma map_filter_plain:
  "\<forall>s \<in> set ss. s \<noteq> [] \<Longrightarrow>
   List.map_filter listed_name (map (\<lambda>s. JObj [(JStr ''name'', JStr s)]) ss) = map JStr ss"
  by (induction ss) (auto simp: map_filter_simps listed_name_def)

text \<open>
  C7: for the installed-package list \<open>items\<close> that the database returns,
  \<^verbatim>\<open>detect_orphans\<close> returns the names of its entries whose reverse-dependency set within
  the loaded graph is empty, in the order of the list. A name with an incoming edge is
  never returned, a name that is not in the graph always is. The names are hashable
  values. In particular, for entries \<^verbatim>\<open>{"name": s}\<close> with strings \<open>s\<close> that are not empty,
  the result is the list of those \<open>s\<close> that no edge of the graph points to.
\<close>

theorem detect_orphans_exact:
  "((\<forall>n \<in> set (List.map_filter listed_name items). hashable n) \<longrightarrow>
      detect_orphans g (DbJson (JArr items))
        = Inr (filter (\<lambda>n. dependents g n = {}) (List.map_filter listed_name items)))
   \<and> ((\<forall>s \<in> set ss. s \<noteq> []) \<longrightarrow>
      detect_orphans g (DbJson (JArr (map (\<lambda>s. JObj [(JStr ''name'', JStr s)]) ss)))
        = Inr (map JStr (filter (\<lambda>s. \<not> (\<exists>a. (a, JStr s) \<in> edges g)) ss)))"
proof (intro conjI impI)
  assume "\<forall>n \<in> set (List.map_filter listed_name items). hashable n"
  then show "detect_orphans g (DbJson (JArr items))
      = Inr (filter (\<lambda>n. dependents g n = {}) (List.map_filter listed_name items))"
    by (simp add: detect_orphans_def installed_names_list orphans_loop_eq)
next
  assume ne: "\<forall>s \<in> set ss. s \<noteq> []"
  let ?items = "map (\<lambda>s. JObj [(JStr ''name'', JStr s)]) ss"
  have names: "installed_names (JArr ?items) = map JStr ss"
    using ne by (simp add: installed_names_list map_filter_plain)
  have "\<forall>n \<in> set (map JStr ss). hashable n" by simp
  then have "orphans_loop (revdeps_map g) (map JStr ss)
      = Inr (filter (\<lambda>n. dependents g n = {}) (map JStr ss))"
    by (rule orphans_loop_eq)
  also have "filter (\<lambda>n. dependents g n = {}) (map JStr ss)
      = map JStr (filter (\<lambda>s. \<not> (\<exists>a. (a, JStr s) \<in> edges g)) ss)"
    by (induction ss) (auto simp: dependents_str)
  finally show "detect_orphans g (DbJson (JArr ?items))
      = Inr (map JStr (filter (\<lambda>s. \<not> (\<exists>a. (a, JStr s) \<in> edges g)) ss))"
    by (simp add: detect_orphans_def names)
qed

lemma edges_orphan_graph: "edges orphan_graph = {(JStr ''Z'', JStr ''X'')}"
  by (auto simp: edges_def orphan_graph_def split: if_splits)

lemma edges_number_graph: "edges number_graph = {(JStr ''Z'', JNum 1)}"
  by (auto simp: edges_def number_graph_def split: if_splits)

theorem detect_orphans_exact_witness:
  "List.map_filter listed_name [JObj [(JStr ''name'', JStr ''X'')], JObj [(JStr ''name'', JStr ''Y'')]]
     = [JStr ''X'', JStr ''Y'']
   \<and> hashable (JStr ''X'') \<and> hashable (JStr ''Y'')
   \<and> detect_orphans orphan_graph (DbJson installed_xy) = Inr [JStr ''Y'']
   \<and> ''X'' \<noteq> [] \<and> ''Y'' \<noteq> []
   \<and> detect_orphans orphan_graph
        (DbJson (JArr (map (\<lambda>s. JObj [(JStr ''name'', JStr s)]) [''X'', ''Y''])))
      = Inr [JStr ''Y'']
   \<and> List.map_filter listed_name [JObj [(JStr ''name'', JBool True)], JNum 3] = [JBool True]
   \<and> hashable (JBool True)
   \<and> detect_orphans number_graph (DbJson (JArr [JObj [(JStr ''name'', JBool True)], JNum 3]))
      = Inr []"
proof -
  let ?xy = "[JObj [(JStr ''name'', JStr ''X'')], JObj [(JStr ''name'', JStr ''Y'')]]"
  let ?t = "[JObj [(JStr ''name'', JBool True)], JNum 3]"
  have n1: "List.map_filter listed_name ?xy = [JStr ''X'', JStr ''Y'']"
    by (simp add: map_filter_simps listed_name_def)
  have n2: "List.map_filter listed_name ?t = [JBool True]"
    by (simp add: map_filter_simps listed_name_def)
  have d1: "dependents orphan_graph (JStr ''X'') \<noteq> {}" "dependents orphan_graph (JStr ''Y'') = {}"
    by (auto simp: dependents_str edges_orphan_graph)
  have d2: "dependents number_graph (JBool True) \<noteq> {}"
    by (auto simp: dependents_def edges_number_graph)
  from detect_orphans_exact [of ?xy orphan_graph "[''X'', ''Y'']"]
    detect_orphans_exact [of ?t number_graph "[]"] n1 n2 d1 d2
  show ?thesis by (simp add: installed_xy_def edges_orphan_graph)
qed


section \<open>Rebuild impact and cache load on concrete inputs\<close>


lemma chain_nodes: "nodes chain_graph = [JStr ''A'', JStr ''B'', JStr ''C'']"
  by (simp add: chain_graph_def)

lemma chain_succ:
  "succ chain_graph (JStr ''A'') = [JStr ''B'']"
  "succ chain_graph (JStr ''B'') = [JStr ''C'']"
  "succ chain_graph (JStr ''C'') = []"
  by (simp_all add: chain_graph_def)

lemma chain_dist:
  "shortest_path_length chain_graph (JStr ''A'') (JStr ''C'') = Inr 2"
  "shortest_path_length chain_graph (JStr ''B'') (JStr ''C'') = Inr 1"
  "shortest_path_length chain_graph (JStr ''C'') (JStr ''C'') = Inr 0"
  by (simp_all add: shortest_path_length_def bfs_levels.simps chain_nodes chain_succ)

lemma chain_dependents:
  "graph_dependents chain_graph (JStr ''C'') (nodes chain_graph)
     = Inr [JStr ''A'', JStr ''B'', JStr ''C'']"
  by (simp add: chain_nodes has_path_def chain_dist)

lemma sorted_reverse_chain:
  assumes "set xs = {JStr ''A'', JStr ''B'', JStr ''C''}" "distinct xs"
  shows "sorted_reverse (distance_or_0 chain_graph (JStr ''C'')) xs
     = [JStr ''A'', JStr ''B'', JStr ''C'']"
proof -
  let ?k = "\<lambda>x. - int (distance_or_0 chain_graph (JStr ''C'') x)"
  let ?ys = "sort_key ?k xs"
  have k: "?k (JStr ''A'') = -2" "?k (JStr ''B'') = -1" "?k (JStr ''C'') = 0"
    by (simp_all add: distance_or_0_def chain_dist)
  have inj: "inj_on ?k (set xs)"
    unfolding assms(1) using k by (auto simp: inj_on_def)
  have s: "sorted (map ?k ?ys)" by simp
  have d: "distinct ?ys" "set ?ys = {JStr ''A'', JStr ''B'', JStr ''C''}"
    using assms by simp_all
  have t: "sorted (map ?k [JStr ''A'', JStr ''B'', JStr ''C''])" using k by simp
  have "map ?k ?ys = map ?k [JStr ''A'', JStr ''B'', JStr ''C'']"
  proof (rule sorted_distinct_set_unique)
    show "sorted (map ?k ?ys)" by (rule s)
    show "distinct (map ?k ?ys)"
      using d inj assms(1) by (simp add: distinct_map)
    show "sorted (map ?k [JStr ''A'', JStr ''B'', JStr ''C''])" by (rule t)
    show "distinct (map ?k [JStr ''A'', JStr ''B'', JStr ''C''])" using k by simp
    show "set (map ?k ?ys) = set (map ?k [JStr ''A'', JStr ''B'', JStr ''C''])"
      using d by simp
  qed
  moreover have "inj_on ?k (set ?ys \<union> set [JStr ''A'', JStr ''B'', JStr ''C''])"
    using inj d assms(1) by simp
  ultimately have "?ys = [JStr ''A'', JStr ''B'', JStr ''C'']"
    by (rule map_inj_on)
  then show ?thesis by (simp add: sorted_reverse_def)
qed

text \<open>
  C4 on the code: for the chain \<open>A \<rightarrow> B \<rightarrow> C\<close>, with no dependents reported by the
  database and whatever the iteration order of the set, \<^verbatim>\<open>mark_for_rebuild(C)\<close>
  returns \<open>A\<close>, \<open>B\<close> and then \<open>C\<close> itself: \<^verbatim>\<open>has_path(C, C)\<close> holds, with distance 0.
\<close>

theorem mark_for_rebuild_includes_pkg:
  "set_iter_ok (set_iter E) \<and> db_revdeps E (JStr ''C'') = [] \<longrightarrow>
   mark_for_rebuild E chain_graph (JStr ''C'') = Inr [JStr ''A'', JStr ''B'', JStr ''C'']"
proof
  assume a: "set_iter_ok (set_iter E) \<and> db_revdeps E (JStr ''C'') = []"
  let ?xs = "set_iter E [JStr ''A'', JStr ''B'', JStr ''C'']"
  have "set ?xs = {JStr ''A'', JStr ''B'', JStr ''C''}" "distinct ?xs"
    using a by (auto simp: set_iter_ok_def)
  then have "sorted_reverse (distance_or_0 chain_graph (JStr ''C'')) ?xs
      = [JStr ''A'', JStr ''B'', JStr ''C'']"
    by (rule sorted_reverse_chain)
  with a show "mark_for_rebuild E chain_graph (JStr ''C'')
      = Inr [JStr ''A'', JStr ''B'', JStr ''C'']"
    by (simp add: mark_for_rebuild_def chain_dependents) (simp add: chain_nodes)
qed

lemma set_iter_ok_remdups: "set_iter_ok remdups"
  by (simp add: set_iter_ok_def)

theorem mark_for_rebuild_includes_pkg_witness:
  "set_iter_ok (set_iter quiet_env) \<and> db_revdeps quiet_env (JStr ''C'') = []
   \<and> mark_for_rebuild quiet_env chain_graph (JStr ''C'')
      = Inr [JStr ''A'', JStr ''B'', JStr ''C'']"
proof -
  have h: "set_iter_ok (set_iter quiet_env) \<and> db_revdeps quiet_env (JStr ''C'') = []"
    by (simp add: quiet_env_def set_iter_ok_remdups)
  from mark_for_rebuild_includes_pkg [of quiet_env] h show ?thesis by simp
qed

text \<open>
  C8 on the code: a cache whose first entry is well formed and whose second entry is not
  a dictionary. The load does not raise, logs a warning and clears
  \<^verbatim>\<open>loaded_from_cache\<close>, and the graph keeps the node of the first entry.
\<close>

theorem try_load_cache_partial:
  "nodes (ls_graph (try_load_cache broken_cache init_state)) = [JStr ''a'']
   \<and> \<not> ls_loaded_from_cache (try_load_cache broken_cache init_state)
   \<and> ls_log (try_load_cache broken_cache init_state) = [Warning]"
  by (simp add: try_load_cache_def broken_cache_def init_state_def load_node_def
      obj_get_def add_node_def new_node_def empty_graph_def dict_update_def)


section \<open>Adding packages keeps the graph well formed\<close>

lemma dict_update_keys: "fst ` set (dict_update d kw) = fst ` set d \<union> fst ` set kw"
  unfolding dict_update_def
  by (induction kw arbitrary: d) (auto simp: dom_update)

lemma dict_update_distinct: "distinct (map fst d) \<Longrightarrow> distinct (map fst (dict_update d kw))"
  unfolding dict_update_def
  by (induction kw arbitrary: d) (auto simp: distinct_update)

lemma attrs_ok_update:
  "attrs_ok d \<Longrightarrow> ''self'' \<notin> fst ` set kw \<Longrightarrow> ''node_for_adding'' \<notin> fst ` set kw \<Longrightarrow>
   attrs_ok (dict_update d kw)"
  by (simp add: attrs_ok_def dict_update_keys dict_update_distinct)

lemma attrs_ok_Nil: "attrs_ok []"
  by (simp add: attrs_ok_def)

lemma wf_graphD:
  assumes "wf_graph g" "m \<in> set (nodes g)"
  shows "hashable m" "m \<noteq> JNull" "distinct (succ g m)" "set (succ g m) \<subseteq> set (nodes g)"
  using assms by (simp_all add: wf_graph_def)

lemma built_invD:
  assumes "built_inv g"
  shows "wf_graph g" "distinct (nodes g)" "\<And>m. attrs_ok (attrs g m)"
    "\<And>m. m \<notin> set (nodes g) \<Longrightarrow> attrs g m = []"
    "\<And>m. m \<notin> set (nodes g) \<Longrightarrow> succ g m = []"
  using assms by (simp_all add: built_inv_def wf_graph_def)

lemma new_node_inv:
  assumes a: "new_node g n = Inr g'" and inv: "built_inv g"
  shows "built_inv g'"
proof (cases "n \<in> set (nodes g)")
  case True
  with a inv show ?thesis by (simp add: new_node_def split: if_splits)
next
  case False
  from a False have h: "hashable n" "n \<noteq> JNull"
    and g': "g' = g\<lparr>nodes := nodes g @ [n], attrs := (attrs g)(n := []),
                       succ := (succ g)(n := [])\<rparr>"
    by (simp_all add: new_node_def split: if_splits)
  note wf = built_invD(1) [OF inv]
  have "wf_graph g'"
    unfolding wf_graph_def
  proof (intro conjI ballI)
    show "distinct (nodes g')" using built_invD(2) [OF inv] False by (simp add: g')
  next
    fix m assume m: "m \<in> set (nodes g')"
    show "hashable m" using m h wf_graphD(1) [OF wf, of m] by (auto simp: g')
    show "m \<noteq> JNull" using m h wf_graphD(2) [OF wf, of m] by (auto simp: g')
    show "distinct (succ g' m)" using m wf_graphD(3) [OF wf, of m] by (auto simp: g')
    show "set (succ g' m) \<subseteq> set (nodes g')"
      using m wf_graphD(4) [OF wf, of m] by (auto simp: g')
  qed
  moreover have "\<forall>m. m \<notin> set (nodes g') \<longrightarrow> attrs g' m = [] \<and> succ g' m = []"
    using built_invD(4,5) [OF inv] by (simp add: g')
  moreover have "\<forall>m. attrs_ok (attrs g' m)"
    using built_invD(3) [OF inv] by (simp add: g' attrs_ok_Nil)
  ultimately show ?thesis by (simp add: built_inv_def)
qed

lemma new_node_nodes:
  "new_node g n = Inr g' \<Longrightarrow> set (nodes g') = insert n (set (nodes g)) \<and> hashable n"
  by (auto simp: new_node_def split: if_splits)

lemma add_node_inv:
  assumes "add_node g n kw = Inr g'" "built_inv g"
    "''self'' \<notin> fst ` set kw" "''node_for_adding'' \<notin> fst ` set kw"
  shows "built_inv g'"
proof -
  from assms(1) obtain g1 where g1: "new_node g n = Inr g1"
    and g': "g' = g1\<lparr>attrs := (attrs g1)(n := dict_update (attrs g1 n) kw)\<rparr>"
    by (cases "new_node g n") (simp_all add: add_node_def)
  have i1: "built_inv g1" using g1 assms(2) by (rule new_node_inv)
  have n: "n \<in> set (nodes g1)" using new_node_nodes [OF g1] by simp
  have "wf_graph g'" using built_invD(1) [OF i1] by (simp add: g' wf_graph_def)
  moreover have "\<forall>m. m \<notin> set (nodes g') \<longrightarrow> attrs g' m = [] \<and> succ g' m = []"
    using built_invD(4,5) [OF i1] n by (auto simp: g')
  moreover have "\<forall>m. attrs_ok (attrs g' m)"
    using built_invD(3) [OF i1] assms(3,4) by (simp add: g' attrs_ok_update)
  ultimately show ?thesis by (simp add: built_inv_def)
qed

lemma add_node_nodes:
  "add_node g n kw = Inr g' \<Longrightarrow> set (nodes g') = insert n (set (nodes g))"
  by (cases "new_node g n") (auto simp: add_node_def dest: new_node_nodes)

lemma add_edge_split:
  assumes "add_edge g u v = Inr g'"
  obtains g1 g2 where "new_node g u = Inr g1" "new_node g1 v = Inr g2"
    "g' = g2\<lparr>succ := (succ g2)(u := (if v \<in> set (succ g2 u) then succ g2 u
                                        else succ g2 u @ [v]))\<rparr>"
proof (cases "new_node g u")
  case (Inl e)
  with assms show ?thesis by (simp add: add_edge_def)
next
  case (Inr g1)
  show ?thesis
  proof (cases "new_node g1 v")
    case (Inl e)
    with assms Inr show ?thesis by (simp add: add_edge_def)
  next
    case r2: (Inr g2)
    with assms Inr that show ?thesis by (simp add: add_edge_def)
  qed
qed

lemma add_edge_inv:
  assumes "add_edge g u v = Inr g'" "built_inv g"
  shows "built_inv g'"
proof -
  from assms(1) obtain g1 g2 where g1: "new_node g u = Inr g1" and g2: "new_node g1 v = Inr g2"
    and g': "g' = g2\<lparr>succ := (succ g2)(u := (if v \<in> set (succ g2 u) then succ g2 u
                                             else succ g2 u @ [v]))\<rparr>"
    by (rule add_edge_split)
  have i2: "built_inv g2" using g1 g2 assms(2) by (blast intro: new_node_inv)
  have u: "u \<in> set (nodes g2)" and v: "v \<in> set (nodes g2)"
    using new_node_nodes [OF g1] new_node_nodes [OF g2] by auto
  note wf = built_invD(1) [OF i2]
  have "wf_graph g'"
    unfolding wf_graph_def
  proof (intro conjI ballI)
    show "distinct (nodes g')" using built_invD(2) [OF i2] by (simp add: g')
  next
    fix m assume "m \<in> set (nodes g')"
    then have m: "m \<in> set (nodes g2)" by (simp add: g')
    show "hashable m" using wf_graphD(1) [OF wf m] .
    show "m \<noteq> JNull" using wf_graphD(2) [OF wf m] .
    show "distinct (succ g' m)" using wf_graphD(3) [OF wf m] by (auto simp: g')
    show "set (succ g' m) \<subseteq> set (nodes g')"
      using wf_graphD(4) [OF wf m] v by (auto simp: g')
  qed
  moreover have "\<forall>m. m \<notin> set (nodes g') \<longrightarrow> attrs g' m = [] \<and> succ g' m = []"
    using built_invD(4,5) [OF i2] u by (auto simp: g')
  moreover have "\<forall>m. attrs_ok (attrs g' m)"
    using built_invD(3) [OF i2] by (simp add: g')
  ultimately show ?thesis by (simp add: built_inv_def)
qed

lemma add_edge_nodes:
  assumes "add_edge g u v = Inr g'"
  shows "set (nodes g') = insert u (insert v (set (nodes g)))"
proof -
  from assms obtain g1 g2 where g1: "new_node g u = Inr g1" and g2: "new_node g1 v = Inr g2"
    and g': "g' = g2\<lparr>succ := (succ g2)(u := (if v \<in> set (succ g2 u) then succ g2 u
                                             else succ g2 u @ [v]))\<rparr>"
    by (rule add_edge_split)
  show ?thesis using new_node_nodes [OF g1] new_node_nodes [OF g2] by (auto simp: g')
qed

lemma add_deps_inv:
  "built_inv g \<Longrightarrow> built_inv (snd (add_deps name ds g))
     \<and> set (nodes g) \<subseteq> set (nodes (snd (add_deps name ds g)))"
proof (induction ds arbitrary: g)
  case Nil
  then show ?case by simp
next
  case (Cons d ds)
  show ?case
  proof (cases "d = name")
    case True
    with Cons show ?thesis by simp
  next
    case False
    show ?thesis
    proof (cases "add_node g d []")
      case (Inl e)
      with False Cons.prems show ?thesis by simp
    next
      case (Inr g1)
      have i1: "built_inv g1" using Inr Cons.prems by (rule add_node_inv) simp_all
      have n1: "set (nodes g) \<subseteq> set (nodes g1)" using add_node_nodes [OF Inr] by auto
      show ?thesis
      proof (cases "add_edge g1 name d")
        case (Inl e)
        with False Inr i1 n1 show ?thesis by simp
      next
        case r2: (Inr g2)
        have i2: "built_inv g2" using r2 i1 by (rule add_edge_inv)
        have n2: "set (nodes g1) \<subseteq> set (nodes g2)" using add_edge_nodes [OF r2] by auto
        from Cons.IH [OF i2] n1 n2 False Inr r2 show ?thesis by auto
      qed
    qed
  qed
qed

lemma set_attr_inv:
  "built_inv g \<Longrightarrow> n \<in> set (nodes g) \<Longrightarrow> k \<noteq> ''self'' \<Longrightarrow> k \<noteq> ''node_for_adding'' \<Longrightarrow>
   built_inv (set_attr g n k v)"
  unfolding built_inv_def wf_graph_def set_attr_def attrs_ok_def
  by (auto simp: dom_update distinct_update)

lemma add_meta_inv:
  assumes inv: "built_inv g"
  shows "built_inv (snd (add_meta E meta g))"
proof (cases "truthy (meta_name meta)")
  case False
  with inv show ?thesis by (simp add: add_meta_def)
next
  case True
  show ?thesis
  proof (cases "norm_list (meta_build_deps meta)")
    case (Inl e)
    with True inv show ?thesis by (simp add: add_meta_def)
  next
    case bd: (Inr build_deps)
    show ?thesis
    proof (cases "norm_list (meta_run_deps meta)")
      case (Inl e)
      with True bd inv show ?thesis by (simp add: add_meta_def)
    next
      case rd: (Inr run_deps)
      show ?thesis
      proof (cases "norm_list (meta_optional meta)")
        case (Inl e)
        with True bd rd inv show ?thesis by (simp add: add_meta_def)
      next
        case op: (Inr optional)
        let ?kw = "[(''version'', obj_get meta ''version'' JNull),
                    (''origin'', obj_get meta ''origin'' (JStr [])),
                    (''provides'', py_or (obj_get meta ''provides'' JNull) (JArr [])),
                    (''optional'', JArr optional)]"
        show ?thesis
        proof (cases "add_node g (meta_name meta) ?kw")
          case (Inl e)
          with True bd rd op inv show ?thesis by (simp add: add_meta_def)
        next
          case g1: (Inr g1)
          have i1: "built_inv g1" using g1 inv by (rule add_node_inv) simp_all
          have n1: "meta_name meta \<in> set (nodes g1)" using add_node_nodes [OF g1] by simp
          obtain r g2 where r: "add_deps (meta_name meta) (set_iter E (build_deps @ run_deps)) g1
              = (r, g2)"
            by (cases "add_deps (meta_name meta) (set_iter E (build_deps @ run_deps)) g1")
          have i2: "built_inv g2" and n2: "meta_name meta \<in> set (nodes g2)"
            using add_deps_inv [OF i1, of "meta_name meta" "set_iter E (build_deps @ run_deps)"]
              n1 r by auto
          have i3: "built_inv (set_attr g2 (meta_name meta) ''optional'' (JArr optional))"
            using i2 n2 by (rule set_attr_inv) simp_all
          have eq: "add_meta E meta g =
             (if \<exists>d \<in> set (build_deps @ run_deps). \<not> hashable d then (Inl TypeError, g1)
              else case r of
                     Inl e \<Rightarrow> (Inl e, g2)
                   | Inr u \<Rightarrow> (Inr (Some (meta_name meta)),
                        if optional \<noteq> []
                        then set_attr g2 (meta_name meta) ''optional'' (JArr optional)
                        else g2))"
            unfolding add_meta_def Let_def
            by (simp only: True bd rd op g1 r sum.case prod.case not_True_eq_False if_False
                  not_not if_True split: sum.split)
          show ?thesis
            unfolding eq using i1 i2 i3 by (cases r) auto
        qed
      qed
    qed
  qed
qed

section \<open>The cache round trip\<close>

lemma update_fresh: "k \<notin> fst ` set al \<Longrightarrow> AList.update k v al = al @ [(k, v)]"
  by (induction al) auto

lemma fold_update_fresh:
  "distinct (map f ns) \<Longrightarrow> \<forall>n \<in> set ns. f n \<notin> fst ` set acc \<Longrightarrow>
   fold (\<lambda>n out. AList.update (f n) (h n) out) ns acc = acc @ map (\<lambda>n. (f n, h n)) ns"
proof (induction ns arbitrary: acc)
  case Nil
  then show ?case by simp
next
  case (Cons n ns)
  have 1: "AList.update (f n) (h n) acc = acc @ [(f n, h n)]"
    using Cons.prems(2) by (simp add: update_fresh)
  have 2: "\<forall>m \<in> set ns. f m \<notin> fst ` set (acc @ [(f n, h n)])"
    using Cons.prems by (auto simp: image_iff)
  have 3: "distinct (map f ns)" using Cons.prems(1) by simp
  show ?case using Cons.IH [OF 3 2] 1 by simp
qed

lemma dict_update_Nil: "distinct (map fst kw) \<Longrightarrow> dict_update [] kw = kw"
  using fold_update_fresh [of fst kw "[]" snd] by (simp add: dict_update_def)

lemma str_keys_map: "str_keys (map (\<lambda>kv. (JStr (fst kv), snd kv)) kw) = Some kw"
  by (induction kw) auto

lemma assign_items_distinct: "distinct (map fst items) \<Longrightarrow> assign_items items = items"
  using fold_update_fresh [of fst items "[]" snd] by (simp add: assign_items_def)

lemma out_dict_eq:
  "distinct (nodes g) \<Longrightarrow> out_dict g = map (\<lambda>n. (n, cache_entry g n)) (nodes g)"
  using fold_update_fresh [of "\<lambda>n. n" "nodes g" "[]" "cache_entry g"]
  by (simp add: out_dict_def)

lemma json_key_str: "is_str k \<Longrightarrow> \<exists>s. k = JStr s \<and> json_key repr k = Inr s"
  by (cases k) simp_all

lemma codable_coding:
  shows "codable v \<Longrightarrow> json_coding repr v = Inr v"
    and "codable_list xs \<Longrightarrow> json_coding_list repr xs = Inr xs"
    and "codable_items kvs \<Longrightarrow> json_coding_items repr kvs = Inr kvs"
proof (induction v and xs and kvs rule: codable_codable_list_codable_items.induct)
  case (11 kvs)
  then show ?case by (simp add: assign_items_distinct)
next
  case (15 kv kvs)
  then obtain s where s: "fst kv = JStr s" "json_key repr (fst kv) = Inr s"
    using json_key_str [of "fst kv" repr] by auto
  from 15 have "json_coding repr (snd kv) = Inr (snd kv)"
    "json_coding_items repr kvs = Inr kvs" by simp_all
  with s show ?case by (cases kv) simp
qed simp_all

lemma codable_list_iff: "codable_list xs \<longleftrightarrow> (\<forall>x \<in> set xs. codable x)"
  by (induction xs) auto

lemma codable_items_iff:
  "codable_items kvs \<longleftrightarrow> (\<forall>kv \<in> set kvs. is_str (fst kv) \<and> codable (snd kv))"
  by (induction kvs) auto

lemma is_str_codable: "is_str v \<Longrightarrow> codable v"
  by (cases v) simp_all

lemma cache_entry_codable:
  assumes "attrs_ok (attrs g n)" "\<forall>kv \<in> set (attrs g n). codable (snd kv)"
    "\<forall>d \<in> set (succ g n). is_str d"
  shows "codable (cache_entry g n)"
proof -
  have "distinct (map fst (map (\<lambda>kv. (JStr (fst kv), snd kv)) (attrs g n)))"
    using assms(1) by (simp add: attrs_ok_def distinct_map comp_def inj_on_def)
  moreover have "codable_items (map (\<lambda>kv. (JStr (fst kv), snd kv)) (attrs g n))"
    using assms(2) by (simp add: codable_items_iff)
  moreover have "codable_list (succ g n)"
    using assms(3) by (simp add: codable_list_iff is_str_codable)
  ultimately show ?thesis by (simp add: cache_entry_def)
qed

lemma load_node_entry:
  assumes "is_str n" "n \<notin> set (nodes h)" "attrs_ok (attrs g n)"
  shows "load_node h n (cache_entry g n)
    = Inr (h\<lparr>nodes := nodes h @ [n], attrs := (attrs h)(n := attrs g n),
              succ := (succ h)(n := [])\<rparr>)"
proof -
  from assms(1) obtain s where s: "n = JStr s" by (cases n) simp_all
  have "attrs_ok (attrs g (JStr s))" using assms(3) s by simp
  then show ?thesis using assms(2) unfolding s
    by (simp add: load_node_def cache_entry_def obj_get_def str_keys_map add_node_def
        new_node_def dict_update_Nil attrs_ok_def)
qed

lemma load_nodes_entries:
  assumes "distinct xs" "set xs \<inter> set (nodes h) = {}" "\<forall>n \<in> set xs. is_str n"
    "\<forall>n. attrs_ok (attrs g n)"
  shows "fst (load_nodes (map (\<lambda>n. (n, cache_entry g n)) xs) h) = Inr ()
    \<and> nodes (snd (load_nodes (map (\<lambda>n. (n, cache_entry g n)) xs) h)) = nodes h @ xs
    \<and> (\<forall>m. attrs (snd (load_nodes (map (\<lambda>n. (n, cache_entry g n)) xs) h)) m
          = (if m \<in> set xs then attrs g m else attrs h m))
    \<and> (\<forall>m. succ (snd (load_nodes (map (\<lambda>n. (n, cache_entry g n)) xs) h)) m
          = (if m \<in> set xs then [] else succ h m))"
  using assms(1-3)
proof (induction xs arbitrary: h)
  case Nil
  then show ?case by simp
next
  case (Cons n xs)
  let ?h1 = "h\<lparr>nodes := nodes h @ [n], attrs := (attrs h)(n := attrs g n),
               succ := (succ h)(n := [])\<rparr>"
  have ln: "load_node h n (cache_entry g n) = Inr ?h1"
    using Cons.prems assms(4) by (intro load_node_entry) auto
  have d: "distinct xs" and nx: "n \<notin> set xs" using Cons.prems(1) by simp_all
  have dj: "set xs \<inter> set (nodes ?h1) = {}" using Cons.prems(1,2) by auto
  have st: "\<forall>m \<in> set xs. is_str m" using Cons.prems(3) by simp
  note IH = Cons.IH [OF d dj st]
  have step: "load_nodes (map (\<lambda>n. (n, cache_entry g n)) (n # xs)) h
      = load_nodes (map (\<lambda>n. (n, cache_entry g n)) xs) ?h1"
    by (simp add: ln)
  show ?case unfolding step using IH nx by auto
qed

lemma add_edge_present:
  assumes "n \<in> set (nodes h)" "d \<in> set (nodes h)" "hashable n" "hashable d"
  shows "add_edge h n d = Inr (h\<lparr>succ := (succ h)(n := (if d \<in> set (succ h n) then succ h n
                                                       else succ h n @ [d]))\<rparr>)"
  using assms by (simp add: add_edge_def new_node_def)

lemma load_deps_present:
  assumes "n \<in> set (nodes h)" "set ds \<subseteq> set (nodes h)" "\<forall>m \<in> set (nodes h). hashable m"
    "distinct (succ h n @ ds)"
  shows "load_deps n ds h = (Inr (), h\<lparr>succ := (succ h)(n := succ h n @ ds)\<rparr>)"
  using assms
proof (induction ds arbitrary: h)
  case Nil
  then show ?case by simp
next
  case (Cons d ds)
  let ?h1 = "h\<lparr>succ := (succ h)(n := succ h n @ [d])\<rparr>"
  have e: "add_edge h n d = Inr ?h1"
    using Cons.prems by (simp add: add_edge_present)
  have "load_deps n ds ?h1 = (Inr (), ?h1\<lparr>succ := (succ ?h1)(n := succ ?h1 n @ ds)\<rparr>)"
    using Cons.prems by (intro Cons.IH) auto
  moreover have "?h1\<lparr>succ := (succ ?h1)(n := succ ?h1 n @ ds)\<rparr>
      = h\<lparr>succ := (succ h)(n := succ h n @ d # ds)\<rparr>"
    by simp
  ultimately show ?case using e by (simp del: fun_upd_apply)
qed

lemma load_edges_entries:
  assumes "distinct xs" "set xs \<subseteq> set (nodes h)" "\<forall>m \<in> set (nodes h). hashable m"
    "\<forall>n \<in> set xs. is_str n \<and> succ h n = [] \<and> distinct (succ g n)
        \<and> set (succ g n) \<subseteq> set (nodes h)"
  shows "fst (load_edges (map (\<lambda>n. (n, cache_entry g n)) xs) h) = Inr ()
    \<and> nodes (snd (load_edges (map (\<lambda>n. (n, cache_entry g n)) xs) h)) = nodes h
    \<and> attrs (snd (load_edges (map (\<lambda>n. (n, cache_entry g n)) xs) h)) = attrs h
    \<and> (\<forall>m. succ (snd (load_edges (map (\<lambda>n. (n, cache_entry g n)) xs) h)) m
          = (if m \<in> set xs then succ g m else succ h m))"
  using assms
proof (induction xs arbitrary: h)
  case Nil
  then show ?case by simp
next
  case (Cons n xs)
  let ?h1 = "h\<lparr>succ := (succ h)(n := succ g n)\<rparr>"
  have n: "n \<in> set (nodes h)" "is_str n" "succ h n = []" "distinct (succ g n)"
    "set (succ g n) \<subseteq> set (nodes h)"
    using Cons.prems by auto
  have ld: "load_deps n (succ g n) h = (Inr (), ?h1)"
    using load_deps_present [of n h "succ g n"] n Cons.prems(3) by simp
  have step: "load_edges (map (\<lambda>n. (n, cache_entry g n)) (n # xs)) h
      = load_edges (map (\<lambda>n. (n, cache_entry g n)) xs) ?h1"
    using ld n(2) by (simp add: cache_entry_def obj_get_def)
  have nx: "n \<notin> set xs" and d: "distinct xs" using Cons.prems(1) by simp_all
  have IH: "fst (load_edges (map (\<lambda>n. (n, cache_entry g n)) xs) ?h1) = Inr ()
    \<and> nodes (snd (load_edges (map (\<lambda>n. (n, cache_entry g n)) xs) ?h1)) = nodes ?h1
    \<and> attrs (snd (load_edges (map (\<lambda>n. (n, cache_entry g n)) xs) ?h1)) = attrs ?h1
    \<and> (\<forall>m. succ (snd (load_edges (map (\<lambda>n. (n, cache_entry g n)) xs) ?h1)) m
          = (if m \<in> set xs then succ g m else succ ?h1 m))"
    using Cons.prems nx d by (intro Cons.IH) auto
  show ?case unfolding step using IH nx by auto
qed

lemma empty_graph_inv: "built_inv empty_graph"
  by (simp add: built_inv_def wf_graph_def empty_graph_def attrs_ok_Nil)

lemma add_package_inv: "built_inv g \<Longrightarrow> built_inv (snd (add_package_from_metafile E p g))"
  by (auto simp: add_package_from_metafile_def add_meta_inv split: option.splits)

lemma fold_add_package_inv:
  "built_inv g \<Longrightarrow> built_inv (fold (\<lambda>p g. snd (add_package_from_metafile E p g)) ps g)"
  by (induction ps arbitrary: g) (simp_all add: add_package_inv)

lemma build_graph_inv: "built_inv (build_graph E ps)"
  by (simp add: build_graph_def fold_add_package_inv empty_graph_inv)

lemma load_round_trip:
  assumes inv: "built_inv g" and str: "\<forall>n \<in> set (nodes g). is_str n"
  shows "try_load_cache (Content (JObj (map (\<lambda>n. (n, cache_entry g n)) (nodes g)))) st
    = \<lparr>ls_graph = g, ls_loaded_from_cache = True, ls_log = ls_log st @ [Info]\<rparr>"
proof -
  let ?items = "map (\<lambda>n. (n, cache_entry g n)) (nodes g)"
  note wf = built_invD(1) [OF inv]
  have d: "distinct (nodes g)" by (rule built_invD(2) [OF inv])
  let ?r1 = "load_nodes ?items empty_graph"
  have l1: "fst ?r1 = Inr ()" "nodes (snd ?r1) = nodes g"
    "\<And>m. attrs (snd ?r1) m = (if m \<in> set (nodes g) then attrs g m else [])"
    "\<And>m. succ (snd ?r1) m = []"
    using load_nodes_entries [of "nodes g" empty_graph g] d str built_invD(3) [OF inv]
    by (simp_all add: empty_graph_def)
  let ?r2 = "load_edges ?items (snd ?r1)"
  have hs: "\<forall>m \<in> set (nodes (snd ?r1)). hashable m"
    using l1(2) wf_graphD(1) [OF wf] by simp
  have pre: "\<forall>n \<in> set (nodes g). is_str n \<and> succ (snd ?r1) n = [] \<and> distinct (succ g n)
        \<and> set (succ g n) \<subseteq> set (nodes (snd ?r1))"
    using str l1 wf_graphD(3,4) [OF wf] by simp
  have l2: "fst ?r2 = Inr ()" "nodes (snd ?r2) = nodes g" "attrs (snd ?r2) = attrs (snd ?r1)"
    "\<And>m. succ (snd ?r2) m = (if m \<in> set (nodes g) then succ g m else [])"
    using load_edges_entries [of "nodes g" "snd ?r1" g] d hs pre l1(2,4) by simp_all
  have g2: "snd ?r2 = g"
  proof (rule graph.equality)
    show "nodes (snd ?r2) = nodes g" by (rule l2(2))
    show "attrs (snd ?r2) = attrs g"
      using l2(3) l1(3) built_invD(4) [OF inv] by (auto intro!: ext)
    show "succ (snd ?r2) = succ g"
      using l2(4) built_invD(5) [OF inv] by (auto intro!: ext)
  qed simp
  obtain a b where r1: "?r1 = (a, b)" by (cases ?r1)
  obtain c e where r2: "load_edges ?items b = (c, e)" by (cases "load_edges ?items b")
  have "a = Inr ()" "c = Inr ()" "e = g" using l1(1) l2(1) g2 r1 r2 by simp_all
  then show ?thesis
    using r1 r2 by (simp add: try_load_cache_def)
qed

lemma persist_codable:
  assumes inv: "built_inv g" and str: "\<forall>n \<in> set (nodes g). is_str n"
    and cod: "\<forall>n \<in> set (nodes g). \<forall>kv \<in> set (attrs g n). codable (snd kv)"
  shows "persist_cache repr True g old
    = (Content (JObj (map (\<lambda>n. (n, cache_entry g n)) (nodes g))), Info)"
proof -
  let ?items = "map (\<lambda>n. (n, cache_entry g n)) (nodes g)"
  note wf = built_invD(1) [OF inv]
  have d: "distinct (nodes g)" by (rule built_invD(2) [OF inv])
  have out: "out_dict g = ?items" using d by (rule out_dict_eq)
  have ent: "codable (cache_entry g n)" if "n \<in> set (nodes g)" for n
  proof (rule cache_entry_codable)
    show "attrs_ok (attrs g n)" using built_invD(3) [OF inv] by simp
    show "\<forall>kv \<in> set (attrs g n). codable (snd kv)" using cod that by simp
    show "\<forall>d \<in> set (succ g n). is_str d"
      using wf_graphD(4) [OF wf that] str by auto
  qed
  have "distinct (map fst ?items)" using d by (simp add: comp_def)
  moreover have "codable_items ?items"
    using str ent by (simp add: codable_items_iff)
  ultimately have "codable (JObj ?items)" by simp
  then have "json_coding repr (JObj ?items) = Inr (JObj ?items)"
    by (rule codable_coding(1))
  then show ?thesis by (simp add: persist_cache_def out)
qed

lemma seven_graph:
  "build_graph seven_env [JStr ''seven'']
     = \<lparr>nodes = [JNum 7],
        attrs = (\<lambda>n. [])(JNum 7 := [(''version'', JNull), (''origin'', JStr []),
                                     (''provides'', JArr []), (''optional'', JArr [])]),
        succ = (\<lambda>n. [])\<rparr>"
  by (simp add: build_graph_def add_package_from_metafile_def seven_env_def
      add_meta_def meta_name_def meta_build_deps_def meta_run_deps_def meta_optional_def
      meta_section_def py_or_def obj_get_def norm_list_def add_node_def new_node_def
      empty_graph_def dict_update_def Let_def fun_upd_def cong: if_cong)

lemma dated_graph:
  "build_graph dated_env [JStr ''tool'']
     = \<lparr>nodes = [JStr ''tool''],
        attrs = (\<lambda>n. [])(JStr ''tool'' := [(''version'', JDate ''2024-01-01''),
                                     (''origin'', JStr []),
                                     (''provides'', JArr []), (''optional'', JArr [])]),
        succ = (\<lambda>n. [])\<rparr>"
  by (simp add: build_graph_def add_package_from_metafile_def dated_env_def
      add_meta_def meta_name_def meta_build_deps_def meta_run_deps_def meta_optional_def
      meta_section_def py_or_def obj_get_def norm_list_def add_node_def new_node_def
      empty_graph_def dict_update_def Let_def fun_upd_def cong: if_cong)

lemma str_of_int_7: "str_of_int 7 = ''7''"
  by code_simp

text \<open>
  C3, as the specification states it, fails on graphs that \<^verbatim>\<open>add_package_from_metafile\<close>
  builds. A descriptor \<^verbatim>\<open>name: 7\<close> gives the node \<open>7\<close>, a number; the cache holds it
  under the key \<^verbatim>\<open>"7"\<close>, and the load gives the node \<^verbatim>\<open>"7"\<close>, a string. A descriptor
  with \<^verbatim>\<open>version: 2024-01-01\<close> stores a date, which the JSON encoder refuses: the
  write is given up with a logged error, the cache file stays as it was (here: absent),
  and the load gives no node at all.
\<close>

theorem cache_round_trip_counterexample:
  "nodes (build_graph seven_env [JStr ''seven'']) = [JNum 7]
   \<and> (\<forall>repr. nodes (ls_graph (try_load_cache
          (fst (persist_cache repr True (build_graph seven_env [JStr ''seven'']) NoFile))
          init_state)) = [JStr ''7''])
   \<and> nodes (build_graph dated_env [JStr ''tool'']) = [JStr ''tool'']
   \<and> (\<forall>repr. persist_cache repr True (build_graph dated_env [JStr ''tool'']) NoFile
          = (NoFile, Error))
   \<and> nodes (ls_graph (try_load_cache NoFile init_state)) = []"
  by (simp add: seven_graph dated_graph persist_cache_def out_dict_def cache_entry_def
      str_of_int_7 assign_items_def try_load_cache_def init_state_def load_node_def
      obj_get_def add_node_def new_node_def empty_graph_def dict_update_def)

text \<open>
  C3, amended: for a graph built purely by \<^verbatim>\<open>add_package_from_metafile\<close> calls whose
  nodes are strings and whose stored attribute values are JSON values (\<^verbatim>\<open>None\<close>, truth
  values, numbers, strings, and lists and string-keyed dictionaries of such values), when
  the cache file can be written, \<^verbatim>\<open>persist_cache\<close> writes the cache and loading it gives
  the graph back: the same nodes, the same attributes of every node, the same edges.
\<close>

theorem cache_round_trip:
  assumes "g = build_graph E paths" and "\<forall>n \<in> set (nodes g). is_str n"
    and "\<forall>n \<in> set (nodes g). \<forall>kv \<in> set (attrs g n). codable (snd kv)"
  shows "\<exists>cf. persist_cache repr True g old = (cf, Info)
    \<and> ls_graph (try_load_cache cf st) = g
    \<and> ls_loaded_from_cache (try_load_cache cf st)
    \<and> set (nodes (ls_graph (try_load_cache cf st))) = set (nodes g)
    \<and> (\<forall>n. attrs (ls_graph (try_load_cache cf st)) n = attrs g n)
    \<and> edges (ls_graph (try_load_cache cf st)) = edges g"
proof -
  let ?cf = "Content (JObj (map (\<lambda>n. (n, cache_entry g n)) (nodes g)))"
  have inv: "built_inv g" using assms(1) by (simp add: build_graph_inv)
  have p: "persist_cache repr True g old = (?cf, Info)"
    using inv assms(2,3) by (rule persist_codable)
  have "try_load_cache ?cf st
    = \<lparr>ls_graph = g, ls_loaded_from_cache = True, ls_log = ls_log st @ [Info]\<rparr>"
    using inv assms(2) by (rule load_round_trip)
  with p show ?thesis by simp
qed

lemma app_graph:
  "build_graph app_env [JStr ''app'']
     = \<lparr>nodes = [JStr ''app'', JStr ''libfoo'', JStr ''libbar''],
        attrs = (\<lambda>n. [])(JStr ''app'' := [(''version'', JStr ''1.0''), (''origin'', JStr []),
                                         (''provides'', JArr []),
                                         (''optional'', JArr [JStr ''docs''])]),
        succ = (\<lambda>n. [])(JStr ''app'' := [JStr ''libfoo'', JStr ''libbar''])\<rparr>"
  by (simp add: build_graph_def add_package_from_metafile_def app_env_def app_meta_def
      add_meta_def meta_name_def meta_build_deps_def meta_run_deps_def meta_optional_def
      meta_section_def py_or_def obj_get_def norm_list_def strip_constraint_eq
      first_word_def is_space_def comparison_ops_def add_node_def add_edge_def new_node_def
      empty_graph_def set_attr_def dict_update_def Let_def fun_upd_def cong: if_cong)

theorem cache_round_trip_witness:
  "nodes (build_graph app_env [JStr ''app''])
     = [JStr ''app'', JStr ''libfoo'', JStr ''libbar'']
   \<and> succ (build_graph app_env [JStr ''app'']) (JStr ''app'')
       = [JStr ''libfoo'', JStr ''libbar'']
   \<and> attrs (build_graph app_env [JStr ''app'']) (JStr ''app'')
       = [(''version'', JStr ''1.0''), (''origin'', JStr []), (''provides'', JArr []),
          (''optional'', JArr [JStr ''docs''])]
   \<and> is_str (JStr ''app'') \<and> is_str (JStr ''libfoo'') \<and> is_str (JStr ''libbar'')
   \<and> codable (JStr ''1.0'') \<and> codable (JStr []) \<and> codable (JArr [])
   \<and> codable (JArr [JStr ''docs''])
   \<and> (\<exists>cf. persist_cache (\<lambda>q. []) True (build_graph app_env [JStr ''app'']) NoFile
          = (cf, Info)
        \<and> ls_graph (try_load_cache cf init_state) = build_graph app_env [JStr ''app'']
        \<and> edges (ls_graph (try_load_cache cf init_state))
            = edges (build_graph app_env [JStr ''app'']))"
proof -
  let ?g = "build_graph app_env [JStr ''app'']"
  have h1: "\<forall>n \<in> set (nodes ?g). is_str n"
    by (simp add: app_graph)
  have h2: "\<forall>n \<in> set (nodes ?g). \<forall>kv \<in> set (attrs ?g n). codable (snd kv)"
    by (simp add: app_graph)
  from cache_round_trip [OF refl h1 h2, of "\<lambda>q. []" NoFile init_state]
  obtain cf where f: "persist_cache (\<lambda>q. []) True ?g NoFile = (cf, Info)"
    "ls_graph (try_load_cache cf init_state) = ?g"
    "edges (ls_graph (try_load_cache cf init_state)) = edges ?g"
    by blast
  have a: "nodes ?g = [JStr ''app'', JStr ''libfoo'', JStr ''libbar'']"
    "succ ?g (JStr ''app'') = [JStr ''libfoo'', JStr ''libbar'']"
    "attrs ?g (JStr ''app'')
       = [(''version'', JStr ''1.0''), (''origin'', JStr []), (''provides'', JArr []),
          (''optional'', JArr [JStr ''docs''])]"
    by (simp_all add: app_graph)
  from f a show ?thesis by auto
qed

section \<open>The topological sort of an acyclic graph\<close>

lemma edges_nodes: "wf_graph g \<Longrightarrow> (u, v) \<in> edges g \<Longrightarrow> u \<in> set (nodes g) \<and> v \<in> set (nodes g)"
  by (auto simp: edges_def wf_graph_def)

lemma finite_edges: "wf_graph g \<Longrightarrow> finite (edges g)"
proof -
  assume wf: "wf_graph g"
  have "edges g \<subseteq> set (nodes g) \<times> set (nodes g)"
    using edges_nodes [OF wf] by auto
  then show ?thesis by (rule finite_subset) simp
qed

lemma finite_uncounted: "wf_graph g \<Longrightarrow> finite (uncounted g A v)"
proof -
  assume wf: "wf_graph g"
  have "uncounted g A v \<subseteq> set (nodes g)"
    using edges_nodes [OF wf] by (auto simp: uncounted_def)
  then show ?thesis by (rule finite_subset) simp
qed

lemma in_degree_card:
  assumes "wf_graph g"
  shows "in_degree g v = int (card (uncounted g {} v))"
proof -
  have d: "distinct (nodes g)" using assms by (simp add: wf_graph_def)
  have "uncounted g {} v = set (filter (\<lambda>u. v \<in> set (succ g u)) (nodes g))"
    by (auto simp: uncounted_def edges_def)
  moreover have "card (set (filter (\<lambda>u. v \<in> set (succ g u)) (nodes g)))
      = length (filter (\<lambda>u. v \<in> set (succ g u)) (nodes g))"
    using d by (intro distinct_card) simp
  ultimately show ?thesis by (simp only: in_degree_def)
qed

lemma map_of_None_iff: "map_of al k = None \<longleftrightarrow> k \<notin> fst ` set al"
  by (simp add: map_of_eq_None_iff)

lemma visit_child_inv:
  assumes wf: "wf_graph g" and inv: "kahn_inv g out A indeg zero"
    and e: "(cur, c) \<in> edges g" "(cur, c) \<notin> A" and cur: "cur \<in> set out"
  shows "\<exists>indeg' zero'. visit_child c (indeg, zero) = Inr (indeg', zero')
           \<and> kahn_inv g out (insert (cur, c) A) indeg' zero'"
proof -
  from inv have j1: "distinct (out @ zero)" "distinct (map fst indeg)"
    and j2: "set out \<union> set zero \<union> fst ` set indeg = set (nodes g)"
    and j3: "(set out \<union> set zero) \<inter> fst ` set indeg = {}"
    and j4: "A \<subseteq> edges g" "fst ` A \<subseteq> set out"
    and j5: "\<And>v d. map_of indeg v = Some d \<Longrightarrow> d = int (card (uncounted g A v)) \<and> 0 < d"
    and j6: "\<And>v u. v \<in> set out \<union> set zero \<Longrightarrow> (u, v) \<in> edges g \<Longrightarrow> (u, v) \<in> A"
    and j7: "topo_ordered g out"
    unfolding kahn_inv_def by blast+
  let ?A = "insert (cur, c) A"
  have cN: "c \<in> set (nodes g)" using edges_nodes [OF wf e(1)] by simp
  have cno: "c \<notin> set out \<union> set zero" using j6 e by blast
  with cN j2 have cdom: "c \<in> fst ` set indeg" by blast
  then obtain d where d: "map_of indeg c = Some d"
    using map_of_None_iff [of indeg c] by (cases "map_of indeg c") auto
  have dd: "d = int (card (uncounted g A c))" "0 < d" using j5 [OF d] by simp_all
  have unc: "uncounted g ?A c = uncounted g A c - {cur}"
    by (auto simp: uncounted_def)
  have curin: "cur \<in> uncounted g A c" using e by (simp add: uncounted_def)
  have cardc: "int (card (uncounted g ?A c)) = d - 1"
    using curin finite_uncounted [OF wf, of A c] dd unfolding unc
    by (simp add: card_Diff_singleton of_nat_diff)
  have other: "uncounted g ?A v = uncounted g A v" if "v \<noteq> c" for v
    using that by (auto simp: uncounted_def)
  have A2: "?A \<subseteq> edges g" "fst ` ?A \<subseteq> set out" using j4 e(1) cur by auto
  show ?thesis
  proof (cases "d - 1 = 0")
    case True
    let ?i = "AList.delete c indeg" and ?z = "zero @ [c]"
    have vc: "visit_child c (indeg, zero) = Inr (?i, ?z)" using d True by simp
    have empty: "uncounted g ?A c = {}"
      using cardc True finite_uncounted [OF wf, of ?A c] by simp
    have keys: "fst ` set ?i = fst ` set indeg - {c}"
      using delete_keys [of c indeg] by (metis list.set_map set_removeAll)
    have "kahn_inv g out ?A ?i ?z"
      unfolding kahn_inv_def
    proof (intro conjI allI impI)
      show "distinct (out @ ?z)" using j1(1) cno by auto
      show "distinct (map fst ?i)" using j1(2) by (simp add: distinct_delete)
      show "set out \<union> set ?z \<union> fst ` set ?i = set (nodes g)"
        using j2 cdom keys by auto
      show "(set out \<union> set ?z) \<inter> fst ` set ?i = {}" using j3 keys by auto
      show "?A \<subseteq> edges g" by (rule A2)
      show "fst ` ?A \<subseteq> set out" by (rule A2)
      show "topo_ordered g out" by (rule j7)
    next
      fix v d' assume m: "map_of ?i v = Some d'"
      then have vc': "v \<noteq> c" by (auto simp: delete_conv' split: if_splits)
      with m have "map_of indeg v = Some d'" by simp
      from j5 [OF this] other [OF vc']
      show "d' = int (card (uncounted g ?A v))" "0 < d'" by simp_all
    next
      fix v u assume v: "v \<in> set out \<union> set ?z" and uv: "(u, v) \<in> edges g"
      show "(u, v) \<in> ?A"
      proof (cases "v = c")
        case True
        with empty uv show ?thesis by (auto simp: uncounted_def)
      next
        case False
        with v j6 uv show ?thesis by auto
      qed
    qed
    with vc show ?thesis by blast
  next
    case False
    let ?i = "AList.update c (d - 1) indeg"
    have vc: "visit_child c (indeg, zero) = Inr (?i, zero)" using d False by simp
    have keys: "fst ` set ?i = fst ` set indeg" using cdom by (auto simp: dom_update)
    have "kahn_inv g out ?A ?i zero"
      unfolding kahn_inv_def
    proof (intro conjI allI impI)
      show "distinct (out @ zero)" by (rule j1)
      show "distinct (map fst ?i)" using j1(2) by (simp add: distinct_update)
      show "set out \<union> set zero \<union> fst ` set ?i = set (nodes g)" using j2 keys by simp
      show "(set out \<union> set zero) \<inter> fst ` set ?i = {}" using j3 keys by simp
      show "?A \<subseteq> edges g" by (rule A2)
      show "fst ` ?A \<subseteq> set out" by (rule A2)
      show "topo_ordered g out" by (rule j7)
    next
      fix v d' assume m: "map_of ?i v = Some d'"
      show "d' = int (card (uncounted g ?A v))"
      proof (cases "v = c")
        case True
        with m cardc show ?thesis by (simp add: update_conv')
      next
        case False
        with m have "map_of indeg v = Some d'" by (simp add: update_conv')
        from j5 [OF this] other [OF False] show ?thesis by simp
      qed
      show "0 < d'"
      proof (cases "v = c")
        case True
        with m have "d' = d - 1" by (simp add: update_conv')
        with dd(2) False show ?thesis by simp
      next
        case nc: False
        with m have "map_of indeg v = Some d'" by (simp add: update_conv')
        from j5 [OF this] show ?thesis by simp
      qed
    next
      fix v u assume v: "v \<in> set out \<union> set zero" and uv: "(u, v) \<in> edges g"
      with j6 show "(u, v) \<in> ?A" by auto
    qed
    with vc show ?thesis by blast
  qed
qed

lemma kahn_invD:
  assumes "kahn_inv g out A indeg zero"
  shows "distinct (out @ zero)" "distinct (map fst indeg)"
    "set out \<union> set zero \<union> fst ` set indeg = set (nodes g)"
    "(set out \<union> set zero) \<inter> fst ` set indeg = {}"
    "A \<subseteq> edges g" "fst ` A \<subseteq> set out"
    "\<And>v d. map_of indeg v = Some d \<Longrightarrow> d = int (card (uncounted g A v)) \<and> 0 < d"
    "\<And>v u. v \<in> set out \<union> set zero \<Longrightarrow> (u, v) \<in> edges g \<Longrightarrow> (u, v) \<in> A"
    "topo_ordered g out"
  using assms unfolding kahn_inv_def by blast+

lemma visit_children_inv:
  assumes wf: "wf_graph g" and cur: "cur \<in> set out"
  shows "kahn_inv g out A indeg zero \<Longrightarrow> distinct cs \<Longrightarrow>
    \<forall>c \<in> set cs. (cur, c) \<in> edges g \<and> (cur, c) \<notin> A \<Longrightarrow>
    \<exists>st'. visit_children cs (indeg, zero) = Inr st'
       \<and> kahn_inv g out (A \<union> {cur} \<times> set cs) (fst st') (snd st')"
proof (induction cs arbitrary: A indeg zero)
  case Nil
  then show ?case by simp
next
  case (Cons c cs)
  have e: "(cur, c) \<in> edges g" "(cur, c) \<notin> A" using Cons.prems(3) by simp_all
  from visit_child_inv [OF wf Cons.prems(1) e cur]
  obtain indeg' zero' where v: "visit_child c (indeg, zero) = Inr (indeg', zero')"
    and i: "kahn_inv g out (insert (cur, c) A) indeg' zero'" by blast
  have d: "distinct cs" and nc: "c \<notin> set cs" using Cons.prems(2) by simp_all
  have r: "\<forall>c' \<in> set cs. (cur, c') \<in> edges g \<and> (cur, c') \<notin> insert (cur, c) A"
    using Cons.prems(3) nc by auto
  from Cons.IH [OF i d r]
  obtain st' where s: "visit_children cs (indeg', zero') = Inr st'"
    and k: "kahn_inv g out (insert (cur, c) A \<union> {cur} \<times> set cs) (fst st') (snd st')"
    by blast
  have "insert (cur, c) A \<union> {cur} \<times> set cs = A \<union> {cur} \<times> set (c # cs)" by auto
  with k v s show ?case by simp
qed

lemma run_generation_inv:
  assumes wf: "wf_graph g"
  shows "kahn_inv g (proc @ todo) (edges_from g (set proc)) indeg zero \<Longrightarrow>
    \<exists>st'. run_generation g todo (indeg, zero) = Inr st'
       \<and> kahn_inv g (proc @ todo) (edges_from g (set (proc @ todo))) (fst st') (snd st')"
proof (induction todo arbitrary: proc indeg zero)
  case Nil
  then show ?case by simp
next
  case (Cons cur todo)
  let ?out = "proc @ cur # todo"
  note inv = Cons.prems
  have dist: "distinct ?out" using kahn_invD(1) [OF inv] by auto
  have sub: "set ?out \<subseteq> set (nodes g)" using kahn_invD(3) [OF inv] by blast
  have curN: "cur \<in> set (nodes g)" using sub by simp
  have curP: "cur \<notin> set proc" using dist by simp
  have ds: "distinct (succ g cur)" using wf curN by (simp add: wf_graph_def)
  have pre: "\<forall>c \<in> set (succ g cur). (cur, c) \<in> edges g \<and> (cur, c) \<notin> edges_from g (set proc)"
    using curN curP by (auto simp: edges_def edges_from_def)
  have curO: "cur \<in> set ?out" by simp
  from visit_children_inv [OF wf curO inv ds pre]
  obtain st1 where v: "visit_children (succ g cur) (indeg, zero) = Inr st1"
    and k: "kahn_inv g ?out (edges_from g (set proc) \<union> {cur} \<times> set (succ g cur))
              (fst st1) (snd st1)"
    by blast
  have A: "edges_from g (set proc) \<union> {cur} \<times> set (succ g cur)
      = edges_from g (set (proc @ [cur]))"
    using curN by (auto simp: edges_from_def edges_def)
  have k': "kahn_inv g ((proc @ [cur]) @ todo) (edges_from g (set (proc @ [cur])))
      (fst st1) (snd st1)"
    using k unfolding A by simp
  from Cons.IH [OF k']
  obtain st' where r: "run_generation g todo (fst st1, snd st1) = Inr st'"
    and k2: "kahn_inv g ((proc @ [cur]) @ todo)
              (edges_from g (set ((proc @ [cur]) @ todo))) (fst st') (snd st')"
    by blast
  have "run_generation g (cur # todo) (indeg, zero) = Inr st'"
    using v r curN by simp
  moreover have "kahn_inv g ?out (edges_from g (set ?out)) (fst st') (snd st')"
    using k2 by simp
  ultimately show ?case by blast
qed

lemma topo_ordered_append:
  assumes "topo_ordered g out"
    and "\<And>v u. v \<in> set zero \<Longrightarrow> (u, v) \<in> edges g \<Longrightarrow> u \<in> set out"
  shows "topo_ordered g (out @ zero)"
  unfolding topo_ordered_def
proof (intro allI impI)
  fix ys v zs u
  assume eq: "out @ zero = ys @ v # zs" and uv: "(u, v) \<in> edges g"
  from eq consider us where "out = ys @ us" "us @ zero = v # zs"
    | us where "out @ us = ys" "zero = us @ v # zs"
    by (auto simp: append_eq_append_conv2)
  then show "u \<in> set ys"
  proof cases
    case 1
    show ?thesis
    proof (cases us)
      case Nil
      with 1 have "v \<in> set zero" "ys = out" by simp_all
      with assms(2) uv show ?thesis by blast
    next
      case (Cons a us')
      with 1 have "out = ys @ v # us'" by simp
      with assms(1) uv show ?thesis unfolding topo_ordered_def by blast
    qed
  next
    case 2
    then have "v \<in> set zero" by simp
    with assms(2) uv have "u \<in> set out" by blast
    with 2(1) show ?thesis by auto
  qed
qed

lemma kahn_inv_shift:
  assumes inv: "kahn_inv g out A indeg zero"
  shows "kahn_inv g (out @ zero) A indeg []"
proof -
  note j = kahn_invD [OF inv]
  have t: "topo_ordered g (out @ zero)"
  proof (rule topo_ordered_append [OF j(9)])
    fix v u assume "v \<in> set zero" "(u, v) \<in> edges g"
    then have "(u, v) \<in> A" using j(8) by simp
    then have "u \<in> fst ` A" by force
    with j(6) show "u \<in> set out" by blast
  qed
  show ?thesis
    unfolding kahn_inv_def
  proof (intro conjI allI impI)
    show "distinct ((out @ zero) @ [])" using j(1) by simp
    show "distinct (map fst indeg)" by (rule j(2))
    show "set (out @ zero) \<union> set [] \<union> fst ` set indeg = set (nodes g)" using j(3) by simp
    show "(set (out @ zero) \<union> set []) \<inter> fst ` set indeg = {}" using j(4) by simp
    show "A \<subseteq> edges g" by (rule j(5))
    show "fst ` A \<subseteq> set (out @ zero)" using j(6) by auto
    show "topo_ordered g (out @ zero)" by (rule t)
  next
    fix v d assume "map_of indeg v = Some d"
    from j(7) [OF this] show "d = int (card (uncounted g A v))" "0 < d" by simp_all
  next
    fix v u assume "v \<in> set (out @ zero) \<union> set []" "(u, v) \<in> edges g"
    then show "(u, v) \<in> A" using j(8) by simp
  qed
qed

lemma indeg_empty_when_acyclic:
  assumes wf: "wf_graph g" and ac: "acyclic (edges g)"
    and inv: "kahn_inv g proc (edges_from g (set proc)) indeg []"
  shows "indeg = []"
proof (rule ccontr)
  assume ne: "indeg \<noteq> []"
  note j = kahn_invD [OF inv]
  let ?S = "fst ` set indeg"
  from ne obtain x where x: "x \<in> ?S" by (cases indeg) auto
  have "wf (edges g)" using finite_edges [OF wf] ac by (rule finite_acyclic_wf)
  then obtain z where z: "z \<in> ?S" and zmin: "\<And>y. (y, z) \<in> edges g \<Longrightarrow> y \<notin> ?S"
    using x by (rule wfE_min) blast
  from z obtain d where d: "map_of indeg z = Some d"
    using map_of_None_iff [of indeg z] by (cases "map_of indeg z") auto
  from j(7) [OF d] have "0 < card (uncounted g (edges_from g (set proc)) z)" by simp
  then have "uncounted g (edges_from g (set proc)) z \<noteq> {}" by auto
  then obtain u where u: "(u, z) \<in> edges g" "(u, z) \<notin> edges_from g (set proc)"
    by (auto simp: uncounted_def)
  then have "u \<notin> set proc" by (simp add: edges_from_def)
  moreover have "u \<in> set (nodes g)" using edges_nodes [OF wf u(1)] by simp
  ultimately have "u \<in> ?S" using j(3) by auto
  with zmin [OF u(1)] show False by simp
qed

lemma topo_generations_ok:
  "wf_graph g \<Longrightarrow> acyclic (edges g) \<Longrightarrow>
   kahn_inv g (proc @ zero) (edges_from g (set proc)) indeg [] \<Longrightarrow>
    \<exists>gens. topo_generations g indeg zero = Inr gens
       \<and> distinct (proc @ concat gens) \<and> set (proc @ concat gens) = set (nodes g)
       \<and> topo_ordered g (proc @ concat gens)"
proof (induction g indeg zero arbitrary: proc rule: topo_generations.induct)
  case (1 g indeg zero)
  note wf = "1.prems"(1) and ac = "1.prems"(2) and inv = "1.prems"(3)
  show ?case
  proof (cases "zero = []")
    case True
    with inv have inv': "kahn_inv g proc (edges_from g (set proc)) indeg []" by simp
    have e: "indeg = []" using wf ac inv' by (rule indeg_empty_when_acyclic)
    note j = kahn_invD [OF inv']
    have "topo_generations g indeg zero = Inr []"
      using True e by (simp add: topo_generations.simps)
    moreover have "distinct proc" using j(1) by simp
    moreover have "set proc = set (nodes g)" using j(3) e by simp
    ultimately show ?thesis using j(9) by simp
  next
    case False
    from run_generation_inv [OF wf inv]
    obtain st where r: "run_generation g zero (indeg, []) = Inr st"
      and k: "kahn_inv g (proc @ zero) (edges_from g (set (proc @ zero))) (fst st) (snd st)"
      by blast
    have k': "kahn_inv g ((proc @ zero) @ snd st) (edges_from g (set (proc @ zero))) (fst st) []"
      using k by (rule kahn_inv_shift)
    from "1.IH" [OF False r wf ac k']
    obtain gens where t: "topo_generations g (fst st) (snd st) = Inr gens"
      and p: "distinct ((proc @ zero) @ concat gens)"
        "set ((proc @ zero) @ concat gens) = set (nodes g)"
        "topo_ordered g ((proc @ zero) @ concat gens)"
      by blast
    have "topo_generations g indeg zero = Inr (zero # gens)"
      using False r t by (simp add: topo_generations.simps)
    with p show ?thesis by simp
  qed
qed

lemma initial_kahn_inv:
  assumes wf: "wf_graph g"
  shows "kahn_inv g ([] @ filter (\<lambda>v. in_degree g v = 0) (nodes g)) (edges_from g (set []))
           (filter (\<lambda>vd. snd vd > 0) (map (\<lambda>v. (v, in_degree g v)) (nodes g))) []"
proof -
  let ?z = "filter (\<lambda>v. in_degree g v = 0) (nodes g)"
  let ?i = "filter (\<lambda>vd. snd vd > 0) (map (\<lambda>v. (v, in_degree g v)) (nodes g))"
  have d: "distinct (nodes g)" using wf by (simp add: wf_graph_def)
  have keys: "map fst ?i = filter (\<lambda>v. in_degree g v > 0) (nodes g)"
    by (induction "nodes g") (auto simp: filter_map o_def)
  have nonneg: "0 \<le> in_degree g v" for v by (simp add: in_degree_def)
  have ef: "edges_from g (set []) = {}" by (simp add: edges_from_def)
  have nopred: "(u, v) \<notin> edges g" if "in_degree g v = 0" for u v
  proof
    assume "(u, v) \<in> edges g"
    then have "u \<in> uncounted g {} v" by (simp add: uncounted_def)
    moreover have "uncounted g {} v = {}"
      using that in_degree_card [OF wf, of v] finite_uncounted [OF wf, of "{}" v] by simp
    ultimately show False by simp
  qed
  show ?thesis
    unfolding kahn_inv_def ef
  proof (intro conjI allI impI)
    show "distinct (([] @ ?z) @ [])" using d by simp
    show "distinct (map fst ?i)" unfolding keys using d by simp
    show "set ([] @ ?z) \<union> set [] \<union> fst ` set ?i = set (nodes g)"
    proof -
      have "fst ` set ?i = set (map fst ?i)" by simp
      also have "\<dots> = {v \<in> set (nodes g). in_degree g v > 0}" unfolding keys by simp
      finally show ?thesis using nonneg by (auto simp: less_le)
    qed
    show "(set ([] @ ?z) \<union> set []) \<inter> fst ` set ?i = {}"
    proof -
      have "fst ` set ?i = set (map fst ?i)" by simp
      also have "\<dots> = {v \<in> set (nodes g). in_degree g v > 0}" unfolding keys by simp
      finally show ?thesis by auto
    qed
    show "{} \<subseteq> edges g" by simp
    show "fst ` {} \<subseteq> set ([] @ ?z)" by simp
    show "topo_ordered g ([] @ ?z)"
      unfolding topo_ordered_def
    proof (intro allI impI)
      fix ys v zs u assume "[] @ ?z = ys @ v # zs" "(u, v) \<in> edges g"
      then have "v \<in> set ?z" by (metis append_Nil in_set_conv_decomp)
      then have "in_degree g v = 0" by simp
      from nopred [OF this] \<open>(u, v) \<in> edges g\<close> show "u \<in> set ys" by blast
    qed
  next
    fix v dd assume "map_of ?i v = Some dd"
    then have "(v, dd) \<in> set ?i" by (rule map_of_SomeD)
    then have "dd = in_degree g v" "0 < dd" by auto
    then show "dd = int (card (uncounted g {} v))" "0 < dd"
      using in_degree_card [OF wf, of v] by simp_all
  next
    fix v u assume "v \<in> set ([] @ ?z) \<union> set []" "(u, v) \<in> edges g"
    then have "in_degree g v = 0" by simp
    from nopred [OF this] \<open>(u, v) \<in> edges g\<close> show "(u, v) \<in> {}" by blast
  qed
qed

lemma topological_sort_correct:
  assumes wf: "wf_graph g" and ac: "acyclic (edges g)"
  shows "\<exists>topo. topological_sort g = Inr topo \<and> distinct topo \<and> set topo = set (nodes g)
           \<and> topo_ordered g topo"
proof -
  from topo_generations_ok [OF wf ac initial_kahn_inv [OF wf]]
  obtain gens where "topo_generations g
        (filter (\<lambda>vd. snd vd > 0) (map (\<lambda>v. (v, in_degree g v)) (nodes g)))
        (filter (\<lambda>v. in_degree g v = 0) (nodes g)) = Inr gens"
    and "distinct ([] @ concat gens)" "set ([] @ concat gens) = set (nodes g)"
      "topo_ordered g ([] @ concat gens)"
    by blast
  then show ?thesis by (simp add: topological_sort_def)
qed

section \<open>The enumeration of simple cycles\<close>

subsection \<open>Walks\<close>

lemma walk_append_edge: "walk g (xs @ [y]) \<Longrightarrow> (y, z) \<in> edges g \<Longrightarrow> walk g (xs @ [y, z])"
  by (induction xs rule: walk.induct) auto

lemma walk_join: "walk g (xs @ [y]) \<Longrightarrow> walk g (y # zs) \<Longrightarrow> walk g (xs @ y # zs)"
  by (induction xs rule: walk.induct) auto

lemma walk_suffix: "walk g (xs @ ys) \<Longrightarrow> walk g ys"
  by (induction xs rule: walk.induct) (auto elim: walk.elims)

lemma walk_prefix: "walk g (xs @ ys) \<Longrightarrow> walk g xs"
  by (induction xs rule: walk.induct) auto

lemma walk_trancl: "walk g (a # ws @ [b]) \<Longrightarrow> (a, b) \<in> (edges g)\<^sup>+"
proof (induction ws arbitrary: a)
  case Nil
  then show ?case by simp
next
  case (Cons w ws)
  then have "(a, w) \<in> edges g" "walk g (w # ws @ [b])" by simp_all
  with Cons.IH show ?case by (meson trancl_into_trancl2)
qed

lemma trancl_walk:
  "(a, b) \<in> (edges g)\<^sup>+ \<Longrightarrow> \<exists>ws. walk g (a # ws @ [b]) \<and> set (a # ws) \<subseteq> set (nodes g)"
proof (induction rule: trancl_induct)
  case (base y)
  then have "walk g (a # [] @ [y])" "a \<in> set (nodes g)" by (simp_all add: edges_def)
  then show ?case by (intro exI [of _ "[]"]) simp
next
  case (step y z)
  then obtain ws where ws: "walk g (a # ws @ [y])" "set (a # ws) \<subseteq> set (nodes g)" by blast
  have y: "y \<in> set (nodes g)" using step.hyps(2) by (simp add: edges_def)
  have "walk g ((a # ws) @ [y, z])" using ws(1) step.hyps(2) walk_append_edge [of g "a # ws" y z]
    by simp
  then have "walk g (a # (ws @ [y]) @ [z])" by simp
  moreover have "set (a # ws @ [y]) \<subseteq> set (nodes g)" using ws(2) y by simp
  ultimately show ?case by blast
qed

subsection \<open>What the enumeration lists\<close>

lemma paths_back_mem:
  "c \<in> set (paths_back g s allowed path cur) \<longleftrightarrow>
   (\<exists>w \<in> set (succ g cur).
      if w = s then c = rev (cur # path)
      else w \<in> set allowed \<and> c \<in> set (paths_back g s (removeAll w allowed) (cur # path) w))"
  by (subst paths_back.simps) (auto split: if_splits)

lemma nonempty_iff_mem: "xs \<noteq> [] \<longleftrightarrow> (\<exists>c. c \<in> set xs)"
  by (cases xs) auto

lemma paths_back_nonempty:
  "paths_back g s allowed path cur \<noteq> [] \<longleftrightarrow>
   (\<exists>w \<in> set (succ g cur).
      w = s \<or> (w \<in> set allowed \<and> paths_back g s (removeAll w allowed) (cur # path) w \<noteq> []))"
proof
  assume "paths_back g s allowed path cur \<noteq> []"
  then obtain c where "c \<in> set (paths_back g s allowed path cur)"
    unfolding nonempty_iff_mem [of "paths_back g s allowed path cur"] by blast
  then obtain w where w: "w \<in> set (succ g cur)"
    and c: "if w = s then c = rev (cur # path)
            else w \<in> set allowed
              \<and> c \<in> set (paths_back g s (removeAll w allowed) (cur # path) w)"
    unfolding paths_back_mem [of c g s allowed path cur] by blast
  show "\<exists>w \<in> set (succ g cur).
      w = s \<or> (w \<in> set allowed \<and> paths_back g s (removeAll w allowed) (cur # path) w \<noteq> [])"
  proof (cases "w = s")
    case True
    with w show ?thesis by blast
  next
    case False
    with c have "w \<in> set allowed"
      "c \<in> set (paths_back g s (removeAll w allowed) (cur # path) w)" by simp_all
    then have "w \<in> set allowed \<and> paths_back g s (removeAll w allowed) (cur # path) w \<noteq> []"
      by auto
    with w show ?thesis by blast
  qed
next
  assume "\<exists>w \<in> set (succ g cur).
      w = s \<or> (w \<in> set allowed \<and> paths_back g s (removeAll w allowed) (cur # path) w \<noteq> [])"
  then obtain w where w: "w \<in> set (succ g cur)"
    and d: "w = s \<or> (w \<in> set allowed
              \<and> paths_back g s (removeAll w allowed) (cur # path) w \<noteq> [])"
    by blast
  have "\<exists>c. c \<in> set (paths_back g s allowed path cur)"
  proof (cases "w = s")
    case True
    with w have "rev (cur # path) \<in> set (paths_back g s allowed path cur)"
      unfolding paths_back_mem [of "rev (cur # path)" g s allowed path cur] by auto
    then show ?thesis by blast
  next
    case False
    with d have wa: "w \<in> set allowed"
      and ne: "paths_back g s (removeAll w allowed) (cur # path) w \<noteq> []" by simp_all
    from ne obtain c where c: "c \<in> set (paths_back g s (removeAll w allowed) (cur # path) w)"
      unfolding nonempty_iff_mem [of "paths_back g s (removeAll w allowed) (cur # path) w"]
      by blast
    have "c \<in> set (paths_back g s allowed path cur)"
      unfolding paths_back_mem [of c g s allowed path cur] using w wa c False by auto
    then show ?thesis by blast
  qed
  then show "paths_back g s allowed path cur \<noteq> []" by auto
qed

lemma paths_back_sound:
  "c \<in> set (paths_back g s allowed path cur) \<Longrightarrow> cur \<in> set (nodes g) \<Longrightarrow>
   set allowed \<subseteq> set (nodes g) \<Longrightarrow>
   \<exists>ws. c = rev path @ cur # ws \<and> walk g (cur # ws @ [s]) \<and> distinct ws
      \<and> set ws \<subseteq> set allowed"
proof (induction g s allowed path cur arbitrary: c rule: paths_back.induct)
  case (1 g s allowed path cur)
  from "1.prems"(1) obtain w where w: "w \<in> set (succ g cur)"
    and c: "if w = s then c = rev (cur # path)
            else w \<in> set allowed
              \<and> c \<in> set (paths_back g s (removeAll w allowed) (cur # path) w)"
    unfolding paths_back_mem [of c g s allowed path cur] by blast
  have e: "(cur, w) \<in> edges g" using w "1.prems"(2) by (simp add: edges_def)
  show ?case
  proof (cases "w = s")
    case True
    with c e show ?thesis by (intro exI [of _ "[]"]) simp
  next
    case False
    with c have wa: "w \<in> set allowed"
      and c': "c \<in> set (paths_back g s (removeAll w allowed) (cur # path) w)"
      by (auto split: if_splits)
    have "w \<in> set (nodes g)" "set (removeAll w allowed) \<subseteq> set (nodes g)"
      using wa "1.prems"(3) by auto
    from "1.IH" [OF w False wa c' this]
    obtain ws where ws: "c = rev (cur # path) @ w # ws" "walk g (w # ws @ [s])" "distinct ws"
      "set ws \<subseteq> set (removeAll w allowed)" by blast
    have "c = rev path @ cur # (w # ws)" using ws(1) by simp
    moreover have "walk g (cur # (w # ws) @ [s])" using e ws(2) by simp
    moreover have "distinct (w # ws)" using ws(3,4) by auto
    moreover have "set (w # ws) \<subseteq> set allowed" using ws(4) wa by auto
    ultimately show ?thesis by blast
  qed
qed

lemma cycles_in_sound:
  "c \<in> set (cycles_in g ns) \<Longrightarrow> distinct ns \<Longrightarrow> set ns \<subseteq> set (nodes g) \<Longrightarrow>
   is_simple_cycle g c \<and> set c \<subseteq> set ns"
proof (induction ns)
  case Nil
  then show ?case by simp
next
  case (Cons s rest)
  from Cons.prems(1) consider "c \<in> set (paths_back g s rest [] s)" | "c \<in> set (cycles_in g rest)"
    by auto
  then show ?case
  proof cases
    case 1
    from paths_back_sound [OF 1] Cons.prems(3)
    obtain ws where ws: "c = s # ws" "walk g (s # ws @ [s])" "distinct ws" "set ws \<subseteq> set rest"
      by auto
    have "distinct c" using ws Cons.prems(2) by auto
    with ws show ?thesis by (auto simp: is_simple_cycle_def)
  next
    case 2
    with Cons show ?thesis by auto
  qed
qed

lemma simple_cycles_sound:
  assumes "wf_graph g" "c \<in> set (simple_cycles g)"
  shows "is_simple_cycle g c"
  using cycles_in_sound [of c g "nodes g"] assms by (simp add: simple_cycles_def wf_graph_def)

lemma simple_cycle_not_acyclic: "is_simple_cycle g c \<Longrightarrow> \<not> acyclic (edges g)"
proof -
  assume a: "is_simple_cycle g c"
  then obtain x ws where c: "c = x # ws" by (cases c) (auto simp: is_simple_cycle_def)
  with a have "walk g (x # ws @ [x])" by (simp add: is_simple_cycle_def)
  then have "(x, x) \<in> (edges g)\<^sup>+" by (rule walk_trancl)
  then show ?thesis by (auto simp: acyclic_def)
qed

subsection \<open>A graph with a cycle has a listed cycle\<close>

lemma paths_back_finds:
  "walk g (cur # ws @ [s]) \<Longrightarrow> set ws \<subseteq> set allowed \<Longrightarrow> s \<notin> set ws \<Longrightarrow>
   paths_back g s allowed path cur \<noteq> []"
proof (induction g s allowed path cur arbitrary: ws rule: paths_back.induct)
  case (1 g s allowed path cur)
  show ?case
  proof (cases ws)
    case Nil
    with "1.prems"(1) have "s \<in> set (succ g cur)" by (simp add: edges_def)
    then show ?thesis unfolding paths_back_nonempty [of g s allowed path cur] by blast
  next
    case (Cons w ws')
    with "1.prems" have e: "(cur, w) \<in> edges g" and ws: "w \<noteq> s" and wa: "w \<in> set allowed"
      by auto
    have w: "w \<in> set (succ g cur)" using e by (simp add: edges_def)
    have "w \<in> set (w # ws')" by simp
    then obtain pre post where sp: "w # ws' = pre @ w # post" "w \<notin> set post"
      by (meson split_list_last)
    have "walk g ((cur # pre) @ w # post @ [s])" using "1.prems"(1) Cons sp(1)
      by (metis append_Cons append_assoc)
    then have wk: "walk g (w # post @ [s])" by (rule walk_suffix)
    have sub: "set post \<subseteq> set (removeAll w allowed)"
    proof -
      have "set post \<subseteq> set ws" using Cons sp(1) by (metis set_append set_subset_Cons
            subset_trans sup_ge2 list.set(2))
      with "1.prems"(2) sp(2) show ?thesis by auto
    qed
    have ns: "s \<notin> set post"
    proof -
      have "set post \<subseteq> set ws" using Cons sp(1) by (metis set_append set_subset_Cons
            subset_trans sup_ge2 list.set(2))
      with "1.prems"(3) show ?thesis by auto
    qed
    from "1.IH" [OF w ws wa wk sub ns]
    have "paths_back g s (removeAll w allowed) (cur # path) w \<noteq> []" .
    with w wa show ?thesis
      unfolding paths_back_nonempty [of g s allowed path cur] by blast
  qed
qed

lemma cycles_in_finds:
  "walk g (x # ws @ [x]) \<Longrightarrow> set (x # ws) \<subseteq> set ns \<Longrightarrow> cycles_in g ns \<noteq> []"
proof (induction ns arbitrary: x ws)
  case Nil
  then show ?case by simp
next
  case (Cons s rest)
  show ?case
  proof (cases "s \<in> set (x # ws)")
    case False
    with Cons.prems(2) have "set (x # ws) \<subseteq> set rest" by auto
    from Cons.IH [OF Cons.prems(1) this] show ?thesis by simp
  next
    case True
    have "\<exists>us. walk g (s # us @ [s]) \<and> set us \<subseteq> set (x # ws)"
    proof (cases "x = s")
      case True
      with Cons.prems(1) show ?thesis by auto
    next
      case False
      with True obtain a b where ab: "ws = a @ s # b" by (auto dest: split_list)
      have w1: "walk g ((x # a) @ s # b @ [x])" using Cons.prems(1) ab by simp
      then have sb: "walk g (s # b @ [x])" by (rule walk_suffix)
      have "walk g (((x # a) @ [s]) @ (b @ [x]))" using w1 by simp
      then have xa: "walk g ((x # a) @ [s])" by (rule walk_prefix)
      have "walk g ((s # b) @ x # a @ [s])"
        using walk_join [of g "s # b" x "a @ [s]"] sb xa by simp
      then have "walk g (s # (b @ x # a) @ [s])" by simp
      moreover have "set (b @ x # a) \<subseteq> set (x # ws)" using ab by auto
      ultimately show ?thesis by blast
    qed
    then obtain us where us: "walk g (s # us @ [s])" "set us \<subseteq> set (x # ws)" by blast
    have "\<exists>pre. walk g (s # pre @ [s]) \<and> set pre \<subseteq> set us \<and> s \<notin> set pre"
    proof (cases "s \<in> set us")
      case False
      with us show ?thesis by blast
    next
      case True
      then obtain pre post where sp: "us = pre @ s # post" "s \<notin> set pre"
        by (meson split_list_first)
      have "walk g ((s # pre @ [s]) @ post @ [s])" using us(1) sp(1) by simp
      then have "walk g (s # pre @ [s])" by (rule walk_prefix)
      with sp show ?thesis by auto
    qed
    then obtain pre where pre: "walk g (s # pre @ [s])" "set pre \<subseteq> set us" "s \<notin> set pre"
      by blast
    have "set pre \<subseteq> set rest" using pre(2,3) us(2) Cons.prems(2) by auto
    from paths_back_finds [OF pre(1) this pre(3)]
    have "paths_back g s rest [] s \<noteq> []" .
    then show ?thesis by simp
  qed
qed

lemma simple_cycles_empty_iff:
  assumes "wf_graph g"
  shows "simple_cycles g = [] \<longleftrightarrow> acyclic (edges g)"
proof
  assume e: "simple_cycles g = []"
  show "acyclic (edges g)"
  proof (rule ccontr)
    assume "\<not> acyclic (edges g)"
    then obtain x where "(x, x) \<in> (edges g)\<^sup>+" by (auto simp: acyclic_def)
    from trancl_walk [OF this] obtain ws where "walk g (x # ws @ [x])"
      "set (x # ws) \<subseteq> set (nodes g)" by blast
    then have "cycles_in g (nodes g) \<noteq> []" by (rule cycles_in_finds)
    with e show False by (simp add: simple_cycles_def)
  qed
next
  assume a: "acyclic (edges g)"
  show "simple_cycles g = []"
  proof (rule ccontr)
    assume "simple_cycles g \<noteq> []"
    then obtain c where "c \<in> set (simple_cycles g)" by (cases "simple_cycles g") auto
    then have "is_simple_cycle g c" using assms by (intro simple_cycles_sound)
    with a show False using simple_cycle_not_acyclic by blast
  qed
qed

section \<open>Resolution: the set of nodes\<close>

lemma successors_Inr:
  "successors g n = Inr ss \<longleftrightarrow> hashable n \<and> n \<in> set (nodes g) \<and> ss = succ g n"
  by (auto simp: successors_def)

lemma edges_image: "n \<in> set (nodes g) \<Longrightarrow> edges g `` {n} = set (succ g n)"
  by (auto simp: edges_def)

lemma set_iter_okD:
  assumes "set_iter_ok f"
  shows "set (f xs) = set xs" "distinct (f xs)"
  using assms by (simp_all add: set_iter_ok_def)

lemma subgraph_nodes:
  "set_iter_ok (set_iter E) \<Longrightarrow> set (nodes (subgraph E g S)) = {n \<in> set (nodes g). n \<in> S}"
  by (auto simp: subgraph_def set_iter_okD)

lemma subgraph_succ:
  "set_iter_ok (set_iter E) \<Longrightarrow> n \<in> S \<Longrightarrow> n \<in> set (nodes g) \<Longrightarrow>
   set (succ (subgraph E g S) n) = {m \<in> set (succ g n). m \<in> S}
   \<and> distinct (succ (subgraph E g S) n)"
  by (auto simp: subgraph_def set_iter_okD)

lemma subgraph_edges:
  assumes "set_iter_ok (set_iter E)"
  shows "edges (subgraph E g S) = {(a, b). (a, b) \<in> edges g \<and> a \<in> S \<and> b \<in> S}"
proof -
  have "(a, b) \<in> edges (subgraph E g S) \<longleftrightarrow> (a, b) \<in> edges g \<and> a \<in> S \<and> b \<in> S" for a b
  proof (cases "a \<in> S \<and> a \<in> set (nodes g)")
    case True
    then show ?thesis
      using subgraph_nodes [OF assms, of g S] subgraph_succ [OF assms, of a S g]
      by (auto simp: edges_def)
  next
    case False
    then show ?thesis
      using subgraph_nodes [OF assms, of g S] by (auto simp: edges_def)
  qed
  then show ?thesis by auto
qed

lemma subgraph_wf:
  assumes wf: "wf_graph g" and ok: "set_iter_ok (set_iter E)"
  shows "wf_graph (subgraph E g S)"
  unfolding wf_graph_def
proof (intro conjI ballI)
  show "distinct (nodes (subgraph E g S))"
    using ok by (simp add: subgraph_def set_iter_okD)
next
  fix n assume n: "n \<in> set (nodes (subgraph E g S))"
  then have ns: "n \<in> S" "n \<in> set (nodes g)"
    using subgraph_nodes [OF ok, of g S] by auto
  show "hashable n" "n \<noteq> JNull" using wf_graphD(1,2) [OF wf ns(2)] by simp_all
  show "distinct (succ (subgraph E g S) n)" using subgraph_succ [OF ok ns] by simp
  show "set (succ (subgraph E g S) n) \<subseteq> set (nodes (subgraph E g S))"
    using subgraph_succ [OF ok ns] subgraph_nodes [OF ok, of g S] wf_graphD(4) [OF wf ns(2)]
    by auto
qed

subsection \<open>The graph only grows\<close>

lemma new_node_grows:
  assumes "new_node g n = Inr g'"
  shows "set (nodes g) \<subseteq> set (nodes g')" "edges g \<subseteq> edges g'"
  using assms by (auto simp: new_node_def edges_def split: if_splits)

lemma add_node_grows:
  assumes "add_node g n kw = Inr g'"
  shows "set (nodes g) \<subseteq> set (nodes g')" "edges g \<subseteq> edges g'"
proof -
  from assms obtain g1 where g1: "new_node g n = Inr g1"
    and g': "g' = g1\<lparr>attrs := (attrs g1)(n := dict_update (attrs g1 n) kw)\<rparr>"
    by (cases "new_node g n") (auto simp: add_node_def)
  have "nodes g' = nodes g1" "edges g' = edges g1" using g' by (simp_all add: edges_def)
  with new_node_grows [OF g1] show "set (nodes g) \<subseteq> set (nodes g')" "edges g \<subseteq> edges g'"
    by simp_all
qed

lemma add_edge_grows:
  assumes "add_edge g u v = Inr g'"
  shows "set (nodes g) \<subseteq> set (nodes g')" "edges g \<subseteq> edges g'"
proof -
  from assms obtain g1 g2 where g1: "new_node g u = Inr g1" and g2: "new_node g1 v = Inr g2"
    and g': "g' = g2\<lparr>succ := (succ g2)(u := (if v \<in> set (succ g2 u) then succ g2 u
                                                 else succ g2 u @ [v]))\<rparr>"
    by (cases "new_node g u"; cases "new_node (projr (new_node g u)) v")
      (auto simp: add_edge_def)
  have "nodes g' = nodes g2" "edges g2 \<subseteq> edges g'" using g' by (auto simp: edges_def)
  with new_node_grows [OF g1] new_node_grows [OF g2]
  show "set (nodes g) \<subseteq> set (nodes g')" "edges g \<subseteq> edges g'"
    by auto
qed

lemma add_deps_grows:
  "set (nodes g) \<subseteq> set (nodes (snd (add_deps name ds g)))
   \<and> edges g \<subseteq> edges (snd (add_deps name ds g))"
proof (induction name ds g rule: add_deps.induct)
  case (1 name g)
  then show ?case by simp
next
  case (2 name d ds g)
  show ?case
  proof (cases "d = name")
    case True
    with 2 show ?thesis by simp
  next
    case False
    show ?thesis
    proof (cases "add_node g d []")
      case (Inl e)
      with False show ?thesis by simp
    next
      case (Inr g1)
      note a = add_node_grows [OF Inr]
      show ?thesis
      proof (cases "add_edge g1 name d")
        case (Inl e)
        with False Inr a show ?thesis by simp
      next
        case g2: (Inr g2)
        note b = add_edge_grows [OF g2]
        from "2.IH"(2) [OF False Inr g2] False Inr g2 a b show ?thesis by auto
      qed
    qed
  qed
qed

lemma set_attr_same: "nodes (set_attr g n k v) = nodes g" "edges (set_attr g n k v) = edges g"
  by (simp_all add: set_attr_def edges_def)

lemma add_meta_grows:
  "set (nodes g) \<subseteq> set (nodes (snd (add_meta E meta g)))
   \<and> edges g \<subseteq> edges (snd (add_meta E meta g))"
proof -
  let ?kw = "[(''version'', obj_get meta ''version'' JNull),
              (''origin'', obj_get meta ''origin'' (JStr [])),
              (''provides'', py_or (obj_get meta ''provides'' JNull) (JArr [])),
              (''optional'', JArr (projr (norm_list (meta_optional meta))))]"
  show ?thesis
  proof (cases "add_node g (meta_name meta) ?kw")
    case (Inl e)
    then show ?thesis
      by (auto simp: add_meta_def Let_def split: sum.splits)
  next
    case (Inr g1)
    note a = add_node_grows [OF Inr]
    have d: "set (nodes g1) \<subseteq> set (nodes (snd (add_deps (meta_name meta) ds g1)))
        \<and> edges g1 \<subseteq> edges (snd (add_deps (meta_name meta) ds g1))" for ds
      by (rule add_deps_grows)
    show ?thesis
      using Inr a d
      by (auto simp: add_meta_def Let_def set_attr_same split: sum.splits prod.splits)
        (metis snd_conv subsetD)+
  qed
qed

lemma add_package_grows:
  "set (nodes g) \<subseteq> set (nodes (snd (add_package_from_metafile E p g)))
   \<and> edges g \<subseteq> edges (snd (add_package_from_metafile E p g))"
  using add_meta_grows [of g E]
  by (auto simp: add_package_from_metafile_def split: option.splits)

subsection \<open>The depth-first walk\<close>

lemma collect_reach:
  "collect g stack visited deps opt = Inr (deps', opt') \<Longrightarrow>
   visited \<subseteq> (edges g - Id)\<^sup>* `` {rt} \<Longrightarrow> set stack \<subseteq> (edges g - Id)\<^sup>* `` {rt} \<Longrightarrow>
   deps = (edges g - Id) `` visited \<Longrightarrow> insert rt deps \<subseteq> visited \<union> set stack \<Longrightarrow>
   insert rt deps' = (edges g)\<^sup>* `` {rt}"
proof (induction g stack visited deps opt rule: collect.induct)
  case (1 g visited deps opt)
  let ?E = "edges g - Id"
  from "1.prems" have d: "deps' = deps" by simp
  have v: "rt \<in> visited" "?E `` visited \<subseteq> visited" using "1.prems" by auto
  have "?E\<^sup>* `` {rt} \<subseteq> visited"
  proof
    fix x assume "x \<in> ?E\<^sup>* `` {rt}"
    then have "(rt, x) \<in> ?E\<^sup>*" by simp
    then show "x \<in> visited"
      by (induction rule: rtrancl_induct) (use v in auto)
  qed
  with "1.prems"(2) have eq: "visited = ?E\<^sup>* `` {rt}" by auto
  have "insert rt deps = ?E\<^sup>* `` {rt}"
  proof
    show "insert rt deps \<subseteq> ?E\<^sup>* `` {rt}" using "1.prems" eq by auto
    show "?E\<^sup>* `` {rt} \<subseteq> insert rt deps"
    proof
      fix x assume "x \<in> ?E\<^sup>* `` {rt}"
      then have "(rt, x) \<in> ?E\<^sup>*" by simp
      then show "x \<in> insert rt deps"
      proof (cases rule: rtranclE)
        case base
        then show ?thesis by simp
      next
        case (step y)
        then have "y \<in> visited" using eq by auto
        with step(2) "1.prems"(4) show ?thesis by auto
      qed
    qed
  qed
  then show ?case unfolding d by (simp add: rtrancl_r_diff_Id)
next
  case (2 g cur stack visited deps opt)
  let ?E = "edges g - Id"
  show ?case
  proof (cases "cur \<in> visited")
    case True
    with "2.prems" have c: "collect g stack visited deps opt = Inr (deps', opt')" by simp
    show ?thesis
      using "2.IH"(1) [OF True c] "2.prems"(2-5) True by auto
  next
    case False
    with "2.prems"(1) obtain ss where ss: "successors g cur = Inr ss"
      by (cases "successors g cur") auto
    then have cn: "cur \<in> set (nodes g)" and sse: "ss = succ g cur"
      by (simp_all add: successors_Inr)
    let ?ds = "filter (\<lambda>d. d \<noteq> cur) ss"
    let ?ov = "py_or (dict_get (attrs g cur) ''optional'' JNull) (JArr [])"
    let ?opt = "if truthy ?ov then opt @ [(cur, ?ov)] else opt"
    have c: "collect g (rev ?ds @ stack) (insert cur visited) (deps \<union> set ?ds) ?opt
        = Inr (deps', opt')"
      using "2.prems"(1) False ss by (simp add: Let_def)
    have dse: "set ?ds = ?E `` {cur}" using edges_image [OF cn] sse by auto
    have curR: "cur \<in> ?E\<^sup>* `` {rt}" using "2.prems"(3) by simp
    have dsR: "set ?ds \<subseteq> ?E\<^sup>* `` {rt}"
    proof
      fix x assume "x \<in> set ?ds"
      then have "(cur, x) \<in> ?E" using dse by auto
      with curR show "x \<in> ?E\<^sup>* `` {rt}" by (auto intro: rtrancl_into_rtrancl)
    qed
    have p1: "insert cur visited \<subseteq> ?E\<^sup>* `` {rt}" using "2.prems"(2) curR by simp
    have p2: "set (rev ?ds @ stack) \<subseteq> ?E\<^sup>* `` {rt}" using "2.prems"(3) dsR by simp
    have p3: "deps \<union> set ?ds = ?E `` insert cur visited" using "2.prems"(4) dse by auto
    have p4: "insert rt (deps \<union> set ?ds) \<subseteq> insert cur visited \<union> set (rev ?ds @ stack)"
      using "2.prems"(5) by auto
    show ?thesis
      using "2.IH"(2) [OF False ss refl refl c p1 p2 p3 p4] .
  qed
qed

lemma collect_root_node:
  "collect g [rt] {} {} [] = Inr r \<Longrightarrow> rt \<in> set (nodes g)"
  by (cases "successors g rt") (auto simp: successors_Inr)

lemma collect_result:
  assumes "collect g [rt] {} {} [] = Inr (deps, opt)"
  shows "insert rt deps = (edges g)\<^sup>* `` {rt}" "rt \<in> set (nodes g)"
proof -
  show "insert rt deps = (edges g)\<^sup>* `` {rt}"
    using collect_reach [OF assms, of rt] by simp
  show "rt \<in> set (nodes g)" using assms by (rule collect_root_node)
qed

subsection \<open>The prompts for optional dependencies\<close>

lemma push_new_sets:
  "fst (push_new ds deps stack) = deps \<union> set ds
   \<and> set (snd (push_new ds deps stack)) \<subseteq> set stack \<union> set ds"
proof (induction ds arbitrary: deps stack)
  case Nil
  then show ?case by simp
next
  case (Cons d ds)
  show ?case
  proof (cases "d \<in> deps")
    case True
    with Cons [of deps stack] show ?thesis by auto
  next
    case False
    with Cons [of "insert d deps" "d # stack"] show ?thesis by auto
  qed
qed

lemma merge_deps_bound:
  "merge_deps g stack deps = Inr deps' \<Longrightarrow>
   deps \<subseteq> deps' \<and> deps' \<subseteq> deps \<union> {b. \<exists>c \<in> set stack. (c, b) \<in> (edges g)\<^sup>+}"
proof (induction g stack deps rule: merge_deps.induct)
  case (1 g deps)
  then show ?case by simp
next
  case (2 g c stack deps)
  from "2.prems" obtain ss where ss: "successors g c = Inr ss"
    by (cases "successors g c") auto
  then have cn: "c \<in> set (nodes g)" and sse: "ss = succ g c"
    by (simp_all add: successors_Inr)
  let ?d1 = "fst (push_new ss deps stack)"
  let ?s1 = "snd (push_new ss deps stack)"
  have m: "merge_deps g ?s1 ?d1 = Inr deps'" using "2.prems" ss by simp
  note IH = "2.IH" [OF ss m]
  have d1: "?d1 = deps \<union> set ss" and s1: "set ?s1 \<subseteq> set stack \<union> set ss"
    using push_new_sets [of ss deps stack] by simp_all
  have e: "(c, d) \<in> edges g" if "d \<in> set ss" for d
    using that cn sse by (simp add: edges_def)
  have "deps' \<subseteq> deps \<union> {b. \<exists>c' \<in> set (c # stack). (c', b) \<in> (edges g)\<^sup>+}"
  proof
    fix x assume "x \<in> deps'"
    with IH have "x \<in> ?d1 \<or> (\<exists>c' \<in> set ?s1. (c', x) \<in> (edges g)\<^sup>+)" by auto
    then show "x \<in> deps \<union> {b. \<exists>c' \<in> set (c # stack). (c', b) \<in> (edges g)\<^sup>+}"
    proof
      assume "x \<in> ?d1"
      with d1 e show ?thesis by auto
    next
      assume "\<exists>c' \<in> set ?s1. (c', x) \<in> (edges g)\<^sup>+"
      then obtain c' where c': "c' \<in> set ?s1" "(c', x) \<in> (edges g)\<^sup>+" by blast
      from c'(1) s1 have "c' \<in> set stack \<or> c' \<in> set ss" by auto
      then show ?thesis
      proof
        assume "c' \<in> set stack"
        with c'(2) show ?thesis by auto
      next
        assume "c' \<in> set ss"
        then have "(c, c') \<in> edges g" by (rule e)
        from this c'(2) have "(c, x) \<in> (edges g)\<^sup>+" by (rule trancl_into_trancl2)
        then show ?thesis by auto
      qed
    qed
  qed
  moreover have "deps \<subseteq> deps'" using IH d1 by auto
  ultimately show ?case by simp
qed

lemma add_package_inv_or_same:
  assumes "built_inv g"
    and "(if ov \<in> set (nodes g) then (Inr None, g) else add_package_from_metafile E ov g)
          = (r, g1)"
  shows "built_inv g1" "set (nodes g) \<subseteq> set (nodes g1)" "edges g \<subseteq> edges g1"
proof -
  have "g1 = g \<or> g1 = snd (add_package_from_metafile E ov g)"
    using assms(2) by (auto split: if_splits)
  then show "built_inv g1" "set (nodes g) \<subseteq> set (nodes g1)" "edges g \<subseteq> edges g1"
    using assms(1) add_package_inv [of g E ov] add_package_grows [of g E ov] by auto
qed

lemma ask_opts_inv:
  assumes "ask_opts E parent os (k, g, deps) = Inr (k', g', deps')" "built_inv g"
  shows "k' = k + length os \<and> built_inv g' \<and> set (nodes g) \<subseteq> set (nodes g')
    \<and> edges g \<subseteq> edges g' \<and> deps \<subseteq> deps'
    \<and> deps' \<subseteq> deps \<union> {b. \<exists>c \<in> set (accepted_opts E parent os k). (c, b) \<in> (edges g')\<^sup>+}"
  using assms
proof (induction os arbitrary: k g deps)
  case Nil
  then show ?case by simp
next
  case (Cons ov os)
  show ?case
  proof (cases "ask E k parent ov")
    case False
    with Cons.prems have a: "ask_opts E parent os (Suc k, g, deps) = Inr (k', g', deps')"
      by simp
    from Cons.IH [OF a Cons.prems(2)] False show ?thesis by simp
  next
    case True
    obtain r g1 where rg: "(if ov \<in> set (nodes g) then (Inr None, g)
        else add_package_from_metafile E ov g) = (r, g1)"
      by (cases "if ov \<in> set (nodes g) then (Inr None, g)
        else add_package_from_metafile E ov g")
    note g1 = add_package_inv_or_same [OF Cons.prems(2) rg]
    from Cons.prems(1) True rg obtain deps1 where
      m: "merge_deps g1 [ov] deps = Inr deps1"
      and a: "ask_opts E parent os (Suc k, g1, deps1) = Inr (k', g', deps')"
      by (cases r; cases "merge_deps g1 [ov] deps") (auto split: if_splits)
    note IH = Cons.IH [OF a g1(1)]
    note mb = merge_deps_bound [OF m]
    have mono: "(edges g1)\<^sup>+ \<subseteq> (edges g')\<^sup>+" using IH by (intro trancl_mono_subset) simp
    have "deps' \<subseteq> deps \<union> {b. \<exists>c \<in> set (accepted_opts E parent (ov # os) k).
        (c, b) \<in> (edges g')\<^sup>+}"
    proof
      fix x assume "x \<in> deps'"
      with IH have "x \<in> deps1 \<or> (\<exists>c \<in> set (accepted_opts E parent os (Suc k)).
          (c, x) \<in> (edges g')\<^sup>+)" by auto
      then show "x \<in> deps \<union> {b. \<exists>c \<in> set (accepted_opts E parent (ov # os) k).
          (c, b) \<in> (edges g')\<^sup>+}"
      proof
        assume "x \<in> deps1"
        with mb have "x \<in> deps \<or> (ov, x) \<in> (edges g1)\<^sup>+" by auto
        with mono True show ?thesis by auto
      next
        assume "\<exists>c \<in> set (accepted_opts E parent os (Suc k)). (c, x) \<in> (edges g')\<^sup>+"
        with True show ?thesis by auto
      qed
    qed
    moreover have "deps \<subseteq> deps'" using IH mb by auto
    moreover have "set (nodes g) \<subseteq> set (nodes g')" "edges g \<subseteq> edges g'"
      using IH g1 by auto
    ultimately show ?thesis using IH by simp
  qed
qed

lemma ask_all_inv:
  assumes "ask_all E opt (k, g, deps) = Inr (k', g', deps')" "built_inv g"
  shows "built_inv g' \<and> set (nodes g) \<subseteq> set (nodes g')
    \<and> edges g \<subseteq> edges g' \<and> deps \<subseteq> deps'
    \<and> deps' \<subseteq> deps \<union> {b. \<exists>c \<in> set (accepted_all E opt k). (c, b) \<in> (edges g')\<^sup>+}"
  using assms
proof (induction opt arbitrary: k g deps)
  case Nil
  then show ?case by simp
next
  case (Cons po rest)
  obtain parent opts where po: "po = (parent, opts)" by (cases po)
  from Cons.prems(1) obtain os where os: "py_iter opts = Inr os"
    unfolding po by (cases "py_iter opts") auto
  from Cons.prems(1) obtain k1 g1 deps1 where
    a: "ask_opts E parent os (k, g, deps) = Inr (k1, g1, deps1)"
    and b: "ask_all E rest (k1, g1, deps1) = Inr (k', g', deps')"
    unfolding po using os by (cases "ask_opts E parent os (k, g, deps)") auto
  note A = ask_opts_inv [OF a Cons.prems(2)]
  then have k1: "k1 = k + length os" and inv1: "built_inv g1" by simp_all
  note IH = Cons.IH [OF b inv1]
  have mono: "(edges g1)\<^sup>+ \<subseteq> (edges g')\<^sup>+" using IH by (intro trancl_mono_subset) simp
  have "deps' \<subseteq> deps \<union> {b. \<exists>c \<in> set (accepted_all E (po # rest) k). (c, b) \<in> (edges g')\<^sup>+}"
  proof
    fix x assume "x \<in> deps'"
    with IH have "x \<in> deps1 \<or> (\<exists>c \<in> set (accepted_all E rest k1). (c, x) \<in> (edges g')\<^sup>+)"
      by auto
    then show "x \<in> deps \<union> {b. \<exists>c \<in> set (accepted_all E (po # rest) k).
        (c, b) \<in> (edges g')\<^sup>+}"
    proof
      assume "x \<in> deps1"
      with A have "x \<in> deps \<or> (\<exists>c \<in> set (accepted_opts E parent os k).
          (c, x) \<in> (edges g1)\<^sup>+)" by auto
      with mono show ?thesis unfolding po using os by auto
    next
      assume "\<exists>c \<in> set (accepted_all E rest k1). (c, x) \<in> (edges g')\<^sup>+"
      then show ?thesis unfolding po using os k1 by auto
    qed
  qed
  moreover have "deps \<subseteq> deps'" using IH A by auto
  moreover have "set (nodes g) \<subseteq> set (nodes g')" "edges g \<subseteq> edges g'"
    using IH A by auto
  ultimately show ?case using IH by simp
qed

subsection \<open>What resolve hands to the subgraph\<close>

lemma resolve_nodes_cases:
  assumes "resolve_nodes E g rt p = Inr (Some (g2, S))"
  obtains a g1 deps opt k deps2 where "hashable rt"
    "(if rt \<in> set (nodes g) then (Inr (Some rt), g)
      else add_package_from_metafile E rt g) = (Inr (Some a), g1)"
    "collect g1 [rt] {} {} [] = Inr (deps, opt)"
    "(if opt \<noteq> [] \<and> prompting E p then ask_all E opt (0, g1, deps)
      else Inr (0, g1, deps)) = Inr (k, g2, deps2)"
    "S = insert rt deps2"
proof -
  have h: "hashable rt"
    using assms by (cases "hashable rt") (simp_all add: resolve_nodes_def)
  let ?f = "if rt \<in> set (nodes g) then (Inr (Some rt), g)
            else add_package_from_metafile E rt g"
  obtain x g1 where f: "?f = (x, g1)" by (cases ?f)
  have r1: "(case x of Inl e \<Rightarrow> Inl e | Inr None \<Rightarrow> Inr None
        | Inr (Some added) \<Rightarrow>
            (case collect g1 [rt] {} {} [] of
               Inl e \<Rightarrow> Inl e
             | Inr (deps_set, optional_to_ask) \<Rightarrow>
                 (case (if optional_to_ask \<noteq> [] \<and> p
                           \<and> truthy (dict_get (config E) ''resolve_optional'' (JBool False))
                        then ask_all E optional_to_ask (0, g1, deps_set)
                        else Inr (0, g1, deps_set)) of
                    Inl e \<Rightarrow> Inl e
                  | Inr (k, g2, deps2) \<Rightarrow> Inr (Some (g2, insert rt deps2)))))
      = Inr (Some (g2, S))"
    using assms h unfolding resolve_nodes_def f by simp
  then obtain a where x: "x = Inr (Some a)"
    by (cases x; cases "projr x") auto
  from r1 x obtain deps opt where c: "collect g1 [rt] {} {} [] = Inr (deps, opt)"
    by (cases "collect g1 [rt] {} {} []") auto
  let ?q = "if opt \<noteq> [] \<and> prompting E p then ask_all E opt (0, g1, deps)
            else Inr (0, g1, deps)"
  have r2: "(case ?q of Inl e \<Rightarrow> Inl e
        | Inr (k, g2, deps2) \<Rightarrow> Inr (Some (g2, insert rt deps2))) = Inr (Some (g2, S))"
    using r1 x c by (simp add: prompting_def)
  then obtain k deps2 where q: "?q = Inr (k, g2, deps2)" and s: "S = insert rt deps2"
    by (cases ?q) auto
  from h f x c q s show thesis using that by simp
qed

lemma resolve_nodes_facts:
  assumes inv: "built_inv g" and r: "resolve_nodes E g rt p = Inr (Some (g2, S))"
  shows "built_inv g2" "rt \<in> S" "rt \<in> set (nodes g2)" "S \<subseteq> set (nodes g2)"
    "edges g \<subseteq> edges g2"
    "S \<subseteq> (edges g2)\<^sup>* `` {rt}
        \<union> {b. \<exists>c \<in> set (accepted_candidates E g rt p). (c, b) \<in> (edges g2)\<^sup>+}"
    "\<not> prompting E p \<Longrightarrow> S = (edges g2)\<^sup>* `` {rt}"
proof -
  from r obtain a g1 deps opt k deps2 where h: "hashable rt"
    and f: "(if rt \<in> set (nodes g) then (Inr (Some rt), g)
      else add_package_from_metafile E rt g) = (Inr (Some a), g1)"
    and c: "collect g1 [rt] {} {} [] = Inr (deps, opt)"
    and q: "(if opt \<noteq> [] \<and> prompting E p then ask_all E opt (0, g1, deps)
      else Inr (0, g1, deps)) = Inr (k, g2, deps2)"
    and s: "S = insert rt deps2"
    by (rule resolve_nodes_cases)
  have "g1 = g \<or> g1 = snd (add_package_from_metafile E rt g)"
    using f by (auto split: if_splits)
  then have inv1: "built_inv g1" and gr1: "set (nodes g) \<subseteq> set (nodes g1)"
      "edges g \<subseteq> edges g1"
    using inv add_package_inv [of g E rt] add_package_grows [of g E rt] by auto
  note wf1 = built_invD(1) [OF inv1]
  note cr = collect_result [OF c]
  have d1: "deps \<subseteq> set (nodes g1)"
  proof
    fix x assume "x \<in> deps"
    then have "(rt, x) \<in> (edges g1)\<^sup>*" using cr(1) by auto
    then show "x \<in> set (nodes g1)"
      by (induction rule: rtrancl_induct) (use cr(2) edges_nodes [OF wf1] in auto)
  qed
  have acc: "accepted_candidates E g rt p
      = (if prompting E p then accepted_all E opt 0 else [])"
    using f c by (simp add: accepted_candidates_def)
  have A: "built_inv g2 \<and> set (nodes g1) \<subseteq> set (nodes g2) \<and> edges g1 \<subseteq> edges g2
      \<and> deps \<subseteq> deps2
      \<and> deps2 \<subseteq> deps \<union> {b. \<exists>c \<in> set (accepted_candidates E g rt p).
            (c, b) \<in> (edges g2)\<^sup>+}
      \<and> (\<not> prompting E p \<longrightarrow> g2 = g1 \<and> deps2 = deps)"
  proof (cases "opt \<noteq> [] \<and> prompting E p")
    case True
    with q have "ask_all E opt (0, g1, deps) = Inr (k, g2, deps2)" by simp
    from ask_all_inv [OF this inv1] True acc show ?thesis by simp
  next
    case False
    with q have "g2 = g1" "deps2 = deps" by simp_all
    with inv1 show ?thesis by auto
  qed
  then have inv2: "built_inv g2" by simp
  note wf2 = built_invD(1) [OF inv2]
  show "built_inv g2" by (rule inv2)
  show "rt \<in> S" using s by simp
  show rn: "rt \<in> set (nodes g2)" using cr(2) A by auto
  have mono: "(edges g1)\<^sup>* \<subseteq> (edges g2)\<^sup>*" using A by (intro rtrancl_mono) simp
  show "edges g \<subseteq> edges g2" using gr1 A by auto
  show b: "S \<subseteq> (edges g2)\<^sup>* `` {rt}
        \<union> {b. \<exists>c \<in> set (accepted_candidates E g rt p). (c, b) \<in> (edges g2)\<^sup>+}"
  proof
    fix x assume "x \<in> S"
    then have "x = rt \<or> x \<in> deps2" using s by auto
    then show "x \<in> (edges g2)\<^sup>* `` {rt}
        \<union> {b. \<exists>c \<in> set (accepted_candidates E g rt p). (c, b) \<in> (edges g2)\<^sup>+}"
    proof
      assume "x = rt" then show ?thesis by simp
    next
      assume "x \<in> deps2"
      with A have "x \<in> deps \<or> (\<exists>c \<in> set (accepted_candidates E g rt p).
          (c, x) \<in> (edges g2)\<^sup>+)" by auto
      then show ?thesis
      proof
        assume "x \<in> deps"
        then have "(rt, x) \<in> (edges g1)\<^sup>*" using cr(1) by auto
        with mono show ?thesis by auto
      qed simp
    qed
  qed
  show "S \<subseteq> set (nodes g2)"
  proof
    fix x assume "x \<in> S"
    with b have "(rt, x) \<in> (edges g2)\<^sup>* \<or> (\<exists>c. (c, x) \<in> (edges g2)\<^sup>+)" by auto
    then show "x \<in> set (nodes g2)"
    proof
      assume "(rt, x) \<in> (edges g2)\<^sup>*"
      then show ?thesis
        by (induction rule: rtrancl_induct) (use rn edges_nodes [OF wf2] in auto)
    next
      assume "\<exists>c. (c, x) \<in> (edges g2)\<^sup>+"
      then obtain c where "(c, x) \<in> (edges g2)\<^sup>+" by blast
      then show ?thesis
        by (induction rule: trancl_induct) (use edges_nodes [OF wf2] in auto)
    qed
  qed
  show "S = (edges g2)\<^sup>* `` {rt}" if "\<not> prompting E p"
    using that A s cr(1) by auto
qed

lemma resolve_nodes_None:
  assumes "resolve_nodes E g rt p = Inr None"
  shows "rt \<notin> set (nodes g) \<and> fst (add_package_from_metafile E rt g) = Inr None"
proof (cases "rt \<in> set (nodes g)")
  case True
  with assms show ?thesis
    by (auto simp: resolve_nodes_def split: if_splits sum.splits prod.splits)
next
  case False
  obtain x g1 where f: "add_package_from_metafile E rt g = (x, g1)"
    by (cases "add_package_from_metafile E rt g")
  with assms False show ?thesis
    by (cases x; cases "projr x")
      (auto simp: resolve_nodes_def split: if_splits sum.splits prod.splits)
qed

lemma map_raising_length: "map_raising f xs = Inr ys \<Longrightarrow> length ys = length xs"
proof (induction xs arbitrary: ys)
  case Nil
  then show ?case by simp
next
  case (Cons x xs)
  then show ?case
    by (cases "f x"; cases "map_raising f xs") auto
qed

lemma resolve_found_shape:
  assumes inv: "built_inv g" and ok: "set_iter_ok (set_iter E)"
    and r: "resolve_nodes E g rt p = Inr (Some (g2, S))"
  shows "(simple_cycles (subgraph E g2 S) \<noteq> [] \<longrightarrow>
           resolve E g rt p
             = bindE (map_raising (join_strs '','') (simple_cycles (subgraph E g2 S)))
                 (\<lambda>report. Inr (g2, [], report)))
       \<and> (simple_cycles (subgraph E g2 S) = [] \<longrightarrow>
           (\<exists>topo. resolve E g rt p = Inr (g2, rev topo, []) \<and> distinct topo
              \<and> set topo = S \<and> topo_ordered (subgraph E g2 S) topo))"
proof -
  note F = resolve_nodes_facts [OF inv r]
  note wf2 = built_invD(1) [OF F(1)]
  have wfs: "wf_graph (subgraph E g2 S)" using wf2 ok by (rule subgraph_wf)
  have ns: "set (nodes (subgraph E g2 S)) = S"
    using subgraph_nodes [OF ok, of g2 S] F(4) by auto
  show ?thesis
  proof (intro conjI impI)
    assume "simple_cycles (subgraph E g2 S) \<noteq> []"
    then show "resolve E g rt p
        = bindE (map_raising (join_strs '','') (simple_cycles (subgraph E g2 S)))
            (\<lambda>report. Inr (g2, [], report))"
      using r by (simp add: resolve_def Let_def)
  next
    assume e: "simple_cycles (subgraph E g2 S) = []"
    then have "acyclic (edges (subgraph E g2 S))"
      using simple_cycles_empty_iff [OF wfs] by simp
    from topological_sort_correct [OF wfs this] obtain topo where
      t: "topological_sort (subgraph E g2 S) = Inr topo" "distinct topo"
        "set topo = set (nodes (subgraph E g2 S))" "topo_ordered (subgraph E g2 S) topo"
      by blast
    have "resolve E g rt p = Inr (g2, rev topo, [])"
      using r e t(1) by (simp add: resolve_def Let_def)
    with t ns show "\<exists>topo. resolve E g rt p = Inr (g2, rev topo, []) \<and> distinct topo
        \<and> set topo = S \<and> topo_ordered (subgraph E g2 S) topo"
      by auto
  qed
qed

subsection \<open>Resolution on the example graphs\<close>

lemma built_inv_chain: "built_inv chain_graph"
  by (auto simp: built_inv_def wf_graph_def chain_graph_def attrs_ok_def)

lemma built_inv_loop: "built_inv loop_graph"
  by (auto simp: built_inv_def wf_graph_def loop_graph_def attrs_ok_def)

lemma built_inv_opt: "built_inv opt_graph"
  by (auto simp: built_inv_def wf_graph_def opt_graph_def attrs_ok_def)

lemma quiet_iter: "set_iter quiet_env = remdups" "set_iter yes_env = remdups"
  by (simp_all add: quiet_env_def yes_env_def)

lemma nodes_chain: "resolve_nodes quiet_env chain_graph (JStr ''A'') True
    = Inr (Some (chain_graph, {JStr ''A'', JStr ''B'', JStr ''C''}))"
  by (simp add: resolve_nodes_def successors_def chain_graph_def py_or_def dict_get_def
      quiet_env_def)

lemma sub_chain:
  "simple_cycles (subgraph quiet_env chain_graph {JStr ''A'', JStr ''B'', JStr ''C''}) = []"
  "topological_sort (subgraph quiet_env chain_graph {JStr ''A'', JStr ''B'', JStr ''C''})
     = Inr [JStr ''A'', JStr ''B'', JStr ''C'']"
  by code_simp+

lemma resolve_chain: "resolve quiet_env chain_graph (JStr ''A'') True
    = Inr (chain_graph, [JStr ''C'', JStr ''B'', JStr ''A''], [])"
  by (simp add: resolve_def nodes_chain sub_chain)

lemma nodes_loop: "resolve_nodes quiet_env loop_graph (JStr ''A'') True
    = Inr (Some (loop_graph, {JStr ''A'', JStr ''B'', JStr ''C''}))"
  by (simp add: resolve_nodes_def successors_def loop_graph_def py_or_def dict_get_def
      quiet_env_def insert_commute)

lemma sub_loop:
  "simple_cycles (subgraph quiet_env loop_graph {JStr ''A'', JStr ''B'', JStr ''C''})
     = [[JStr ''A'', JStr ''B'', JStr ''C'']]"
  by code_simp

lemma resolve_loop: "resolve quiet_env loop_graph (JStr ''A'') True
    = Inr (loop_graph, [], [''A,B,C''])"
  by (simp add: resolve_def nodes_loop sub_loop)

lemma nodes_number_loop: "resolve_nodes quiet_env number_loop_graph (JNum 7) True
    = Inr (Some (number_loop_graph, {JNum 7, JStr ''a''}))"
  by (simp add: resolve_nodes_def successors_def number_loop_graph_def py_or_def dict_get_def
      quiet_env_def insert_commute)

lemma sub_number_loop:
  "simple_cycles (subgraph quiet_env number_loop_graph {JNum 7, JStr ''a''})
     = [[JNum 7, JStr ''a'']]"
  by code_simp

lemma resolve_number_loop: "resolve quiet_env number_loop_graph (JNum 7) True = Inl TypeError"
  by (simp add: resolve_def nodes_number_loop sub_number_loop)

lemma nodes_opt: "resolve_nodes yes_env opt_graph (JStr ''app'') True
    = Inr (Some (opt_graph, {JStr ''app'', JStr ''lib''}))"
  by (simp add: resolve_nodes_def successors_def opt_graph_def py_or_def dict_get_def
      yes_env_def insert_commute)

lemma sub_opt:
  "simple_cycles (subgraph yes_env opt_graph {JStr ''app'', JStr ''lib''}) = []"
  "topological_sort (subgraph yes_env opt_graph {JStr ''app'', JStr ''lib''})
     = Inr [JStr ''app'', JStr ''lib'']"
  by code_simp+

lemma resolve_opt: "resolve yes_env opt_graph (JStr ''app'') True
    = Inr (opt_graph, [JStr ''lib'', JStr ''app''], [])"
  by (simp add: resolve_def nodes_opt sub_opt)

lemma accepted_opt:
  "accepted_candidates yes_env opt_graph (JStr ''app'') True = [JStr ''gui'', JStr ''lib'']"
  by (simp add: accepted_candidates_def prompting_def successors_def opt_graph_def py_or_def
      dict_get_def yes_env_def)

lemma edges_opt: "edges opt_graph = {(JStr ''gui'', JStr ''lib'')}"
  by (auto simp: edges_def opt_graph_def split: if_splits)

lemma app_not_reach_lib: "(JStr ''app'', JStr ''lib'') \<notin> (edges opt_graph)\<^sup>*"
  unfolding edges_opt by (auto elim: converse_rtranclE)

end
